theory Spec2Isabelle
  imports Complex_Main "HOL-Library.Log_Nat" "HOL-Library.Word"
begin

section \<open>Single-precision arithmetic\<close>

text \<open>
  Every number of \<^verbatim>\<open>main.cpp\<close> is a C++ \<^verbatim>\<open>float\<close>: an IEEE 754 binary32 value,
  with the default rounding (to nearest, ties to even), gradual underflow, no
  extended intermediate precision and every operation of the source rounded on its own
  (no product fused with a sum). A finite binary32 value is a multiple of
  \<open>2\<^sup>-\<^sup>1\<^sup>4\<^sup>9\<close>, so \<open>Fin s n\<close> stands for \<open>(-1)\<^sup>s * n * 2\<^sup>-\<^sup>1\<^sup>4\<^sup>9\<close>: the sign bit and the
  magnitude counted in units of the smallest subnormal. A magnitude that the format
  holds has at most 24 significant bits and lies below \<open>2\<^sup>2\<^sup>7\<^sup>7\<close> units (\<open>2\<^sup>1\<^sup>2\<^sup>8\<close>).
  The sign of a zero is kept; all NaNs are one value.
\<close>

datatype f32 = NaN | Infty bool | Fin bool nat

text \<open>\<open>rne a c\<close> is the integer nearest to \<open>a / c\<close>, a tie going to the even one.\<close>

definition rne :: "nat \<Rightarrow> nat \<Rightarrow> nat" where
  "rne a c = (let q = a div c; r = a mod c in
     if 2 * r < c then q
     else if c < 2 * r then q + 1
     else if even q then q else q + 1)"

text \<open>
  \<open>round_units a b\<close> rounds the magnitude \<open>a / b\<close> (in units) to 24 significant bits:
  the last \<open>sh\<close> bits of the integer part are the ones that do not fit. Below \<open>2\<^sup>2\<^sup>4\<close>
  units (the subnormals and the first binade) the spacing is one unit.
\<close>

definition round_units :: "nat \<Rightarrow> nat \<Rightarrow> nat" where
  "round_units a b = (let sh = floorlog 2 (a div b) - 24 in rne a (b * 2 ^ sh) * 2 ^ sh)"

text \<open>A rounded magnitude of \<open>2\<^sup>1\<^sup>2\<^sup>8\<close> or more overflows to infinity.\<close>

definition mk_f32 :: "bool \<Rightarrow> nat \<Rightarrow> f32" where
  "mk_f32 s n = (if n < 2 ^ 277 then Fin s n else Infty s)"

text \<open>
  A magnitude fits the format when the bits below its 24 leading ones are zero, and
  a value of the type is one the format holds when its magnitude fits and is in range.
  Every operation returns such a value.
\<close>

definition fits24 :: "nat \<Rightarrow> bool" where
  "fits24 K = (2 ^ (floorlog 2 K - 24) dvd K)"

definition valid :: "f32 \<Rightarrow> bool" where
  "valid x = (case x of Fin s n \<Rightarrow> fits24 n \<and> n < 2 ^ 277 | _ \<Rightarrow> True)"

fun fneg :: "f32 \<Rightarrow> f32" where
  "fneg NaN = NaN"
| "fneg (Infty s) = Infty (\<not> s)"
| "fneg (Fin s a) = Fin (\<not> s) a"

text \<open>\<^verbatim>\<open>std::abs(float)\<close> clears the sign bit.\<close>

fun fabs :: "f32 \<Rightarrow> f32" where
  "fabs NaN = NaN"
| "fabs (Infty s) = Infty False"
| "fabs (Fin s a) = Fin False a"

fun fadd :: "f32 \<Rightarrow> f32 \<Rightarrow> f32" where
  "fadd NaN y = NaN"
| "fadd x NaN = NaN"
| "fadd (Infty s) (Infty t) = (if s = t then Infty s else NaN)"
| "fadd (Infty s) (Fin t b) = Infty s"
| "fadd (Fin s a) (Infty t) = Infty t"
| "fadd (Fin s a) (Fin t b) =
     (if s = t then mk_f32 s (round_units (a + b) 1)
      else if a = b then Fin False 0
      else if b < a then mk_f32 s (round_units (a - b) 1)
      else mk_f32 t (round_units (b - a) 1))"

definition fsub :: "f32 \<Rightarrow> f32 \<Rightarrow> f32" where
  "fsub x y = fadd x (fneg y)"

fun fmul :: "f32 \<Rightarrow> f32 \<Rightarrow> f32" where
  "fmul NaN y = NaN"
| "fmul x NaN = NaN"
| "fmul (Infty s) (Infty t) = Infty (s \<noteq> t)"
| "fmul (Infty s) (Fin t b) = (if b = 0 then NaN else Infty (s \<noteq> t))"
| "fmul (Fin s a) (Infty t) = (if a = 0 then NaN else Infty (s \<noteq> t))"
| "fmul (Fin s a) (Fin t b) = mk_f32 (s \<noteq> t) (round_units (a * b) (2 ^ 149))"

fun fdiv :: "f32 \<Rightarrow> f32 \<Rightarrow> f32" where
  "fdiv NaN y = NaN"
| "fdiv x NaN = NaN"
| "fdiv (Infty s) (Infty t) = NaN"
| "fdiv (Infty s) (Fin t b) = Infty (s \<noteq> t)"
| "fdiv (Fin s a) (Infty t) = Fin (s \<noteq> t) 0"
| "fdiv (Fin s a) (Fin t b) =
     (if b = 0 then (if a = 0 then NaN else Infty (s \<noteq> t))
      else mk_f32 (s \<noteq> t) (round_units (a * 2 ^ 149) b))"

text \<open>The signed magnitude, for comparisons: both zeros are \<open>0\<close>.\<close>

definition sval :: "bool \<Rightarrow> nat \<Rightarrow> int" where
  "sval s a = (if s then - int a else int a)"

text \<open>The operator \<^verbatim>\<open><\<close> on floats: false whenever a NaN is involved.\<close>

fun flt :: "f32 \<Rightarrow> f32 \<Rightarrow> bool" where
  "flt NaN y = False"
| "flt x NaN = False"
| "flt (Infty s) (Infty t) = (s \<and> \<not> t)"
| "flt (Infty s) (Fin t b) = s"
| "flt (Fin s a) (Infty t) = (\<not> t)"
| "flt (Fin s a) (Fin t b) = (sval s a < sval t b)"

text \<open>The operator \<^verbatim>\<open><=\<close> on floats.\<close>

fun fle :: "f32 \<Rightarrow> f32 \<Rightarrow> bool" where
  "fle NaN y = False"
| "fle x NaN = False"
| "fle (Infty s) (Infty t) = (s \<or> \<not> t)"
| "fle (Infty s) (Fin t b) = s"
| "fle (Fin s a) (Infty t) = (\<not> t)"
| "fle (Fin s a) (Fin t b) = (sval s a \<le> sval t b)"

text \<open>
  Bounds in units, for the proofs: \<open>atleast L x\<close> when \<open>x\<close> is \<open>+\<infinity>\<close> or a finite value of
  \<open>L\<close> units or more, \<open>atmost H x\<close> when it is \<open>-\<infinity>\<close> or a finite value of \<open>H\<close> units or
  fewer; \<open>fitsI K\<close> when the bound \<open>K\<close> is itself a value of the format.
\<close>

definition atleast :: "int \<Rightarrow> f32 \<Rightarrow> bool" where
  "atleast L x = (case x of NaN \<Rightarrow> False | Infty s \<Rightarrow> \<not> s | Fin s a \<Rightarrow> L \<le> sval s a)"

definition atmost :: "int \<Rightarrow> f32 \<Rightarrow> bool" where
  "atmost H x = (case x of NaN \<Rightarrow> False | Infty s \<Rightarrow> s | Fin s a \<Rightarrow> sval s a \<le> H)"

definition fitsI :: "int \<Rightarrow> bool" where
  "fitsI K = (fits24 (nat \<bar>K\<bar>) \<and> \<bar>K\<bar> < 2 ^ 277)"

text \<open>The operator \<^verbatim>\<open>==\<close> on floats: the two zeros are equal, a NaN equals nothing.\<close>

fun feq :: "f32 \<Rightarrow> f32 \<Rightarrow> bool" where
  "feq NaN y = False"
| "feq x NaN = False"
| "feq (Infty s) (Infty t) = (s = t)"
| "feq (Infty s) (Fin t b) = False"
| "feq (Fin s a) (Infty t) = False"
| "feq (Fin s a) (Fin t b) = (sval s a = sval t b)"

text \<open>\<^verbatim>\<open>std::max(a, b)\<close> is \<^verbatim>\<open>(a < b) ? b : a\<close>.\<close>

definition fmax :: "f32 \<Rightarrow> f32 \<Rightarrow> f32" where
  "fmax a b = (if flt a b then b else a)"

text \<open>
  A decimal literal \<^verbatim>\<open>n/d\<close> with the suffix \<^verbatim>\<open>f\<close>, and the conversion of an
  integer to \<^verbatim>\<open>float\<close>: the nearest binary32 value.
\<close>

definition lit :: "nat \<Rightarrow> nat \<Rightarrow> f32" where
  "lit n d = mk_f32 False (round_units (n * 2 ^ 149) d)"

definition int_to_f32 :: "int \<Rightarrow> f32" where
  "int_to_f32 i = mk_f32 (i < 0) (round_units (nat \<bar>i\<bar> * 2 ^ 149) 1)"

text \<open>
  \<^verbatim>\<open>static_cast<std::uint8_t>(float)\<close> discards the fraction (\<open>ftrunc\<close>, towards zero);
  C++ leaves the conversion undefined when the operand is not finite or the truncated
  value is not one of \<open>0..255\<close>: \<open>None\<close>.
\<close>

fun ftrunc :: "f32 \<Rightarrow> int option" where
  "ftrunc (Fin s a) = Some (sval s (a div 2 ^ 149))"
| "ftrunc NaN = None"
| "ftrunc (Infty s) = None"

definition to_u8 :: "f32 \<Rightarrow> 8 word option" where
  "to_u8 x =
     (case ftrunc x of
        None \<Rightarrow> None
      | Some t \<Rightarrow> if 0 \<le> t \<and> t \<le> 255 then Some (word_of_int t) else None)"

text \<open>
  \<^verbatim>\<open>std::sin\<close>, \<^verbatim>\<open>std::cos\<close> and \<^verbatim>\<open>std::pow\<close> on \<^verbatim>\<open>float\<close> come from the C++ library,
  which fixes no rounding for them: they are parameters of the model.
\<close>

record libm =
  l_sin :: "f32 \<Rightarrow> f32"
  l_cos :: "f32 \<Rightarrow> f32"
  l_pow :: "f32 \<Rightarrow> f32 \<Rightarrow> f32"

text \<open>
  For what is asked of the library: the real number a finite value stands for, and
  \<open>cos_rounded_at M x\<close> when the library's \<open>cos\<close> returns at \<open>x\<close> a value of the format
  within \<open>2\<^sup>-\<^sup>2\<^sup>5\<close> of the cosine of \<open>x\<close>, half the spacing of the format below 1, which
  is what rounding a cosine near 1 to the nearest value gives.
\<close>

definition rval :: "f32 \<Rightarrow> real" where
  "rval x = (case x of Fin s a \<Rightarrow> (if s then - real a else real a) / 2 ^ 149 | _ \<Rightarrow> 0)"

definition cos_rounded_at :: "libm \<Rightarrow> f32 \<Rightarrow> bool" where
  "cos_rounded_at M x =
     (\<exists>s c. l_cos M x = Fin s c \<and> fits24 c \<and> \<bar>rval (Fin s c) - cos (rval x)\<bar> \<le> 1 / 2 ^ 25)"

section \<open>The SFML values the program stores\<close>

text \<open>
  Of SFML only the data that \<^verbatim>\<open>main.cpp\<close> reads and writes is kept: a setter stores
  its argument in the field of the same name.
\<close>

record Vector2f =
  vx :: f32
  vy :: f32

record Color =
  c_r :: "8 word"
  c_g :: "8 word"
  c_b :: "8 word"
  c_a :: "8 word"

definition mkColor :: "8 word \<Rightarrow> 8 word \<Rightarrow> 8 word \<Rightarrow> Color" where
  "mkColor r g b = \<lparr>c_r = r, c_g = g, c_b = b, c_a = 255\<rparr>"

record Vertex =
  v_position :: Vector2f
  v_color :: Color

text \<open>
  \<^verbatim>\<open>m_string\<close> is built with exactly two vertices and never resized: the two
  elements \<^verbatim>\<open>m_string[0]\<close> and \<^verbatim>\<open>m_string[1]\<close>.
\<close>

record VertexArray2 =
  at0 :: Vertex
  at1 :: Vertex

record CircleShape =
  s_radius :: f32
  s_origin :: Vector2f
  s_position :: Vector2f
  s_fillColor :: Color
  s_outlineThickness :: f32
  s_outlineColor :: Color

section \<open>Pendulum\<close>

definition BOB_RADIUS :: f32 where
  "BOB_RADIUS = lit 120 10"

definition STRING_COLOR :: Color where
  "STRING_COLOR = mkColor 70 70 90"

record Pendulum =
  m_string :: VertexArray2
  m_bob :: CircleShape
  m_angularFrequency :: f32
  m_visualLength :: f32
  m_amplitudeRad :: f32
  m_pivotPoint :: Vector2f

text \<open>The member function \<^verbatim>\<open>Pendulum::setup\<close>.\<close>

definition Pendulum_setup :: "f32 \<Rightarrow> f32 \<Rightarrow> f32 \<Rightarrow> Vector2f \<Rightarrow> Color \<Rightarrow> Pendulum \<Rightarrow> Pendulum" where
  "Pendulum_setup freq len amplitude pivot bobColor p =
     p\<lparr>m_angularFrequency := freq,
       m_visualLength := len,
       m_amplitudeRad := amplitude,
       m_pivotPoint := pivot,
       m_string := \<lparr>at0 = (at0 (m_string p))\<lparr>v_position := pivot, v_color := STRING_COLOR\<rparr>,
                    at1 = (at1 (m_string p))\<lparr>v_color := STRING_COLOR\<rparr>\<rparr>,
       m_bob := (m_bob p)\<lparr>s_radius := BOB_RADIUS,
                  s_origin := \<lparr>vx = BOB_RADIUS, vy = BOB_RADIUS\<rparr>,
                  s_fillColor := bobColor,
                  s_outlineThickness := int_to_f32 2,
                  s_outlineColor :=
                    mkColor (c_r bobColor div 2) (c_g bobColor div 2) (c_b bobColor div 2)\<rparr>\<rparr>"

definition currentAngle :: "libm \<Rightarrow> Pendulum \<Rightarrow> f32 \<Rightarrow> f32" where
  "currentAngle M p totalSimTime =
     fmul (m_amplitudeRad p) (l_cos M (fmul (m_angularFrequency p) totalSimTime))"

definition update :: "libm \<Rightarrow> f32 \<Rightarrow> Pendulum \<Rightarrow> Pendulum" where
  "update M totalSimTime p =
     (let angle = currentAngle M p totalSimTime;
          x = fadd (vx (m_pivotPoint p)) (fmul (m_visualLength p) (l_sin M angle));
          y = fadd (vy (m_pivotPoint p)) (fmul (m_visualLength p) (l_cos M angle));
          pos = \<lparr>vx = x, vy = y\<rparr>
      in p\<lparr>m_bob := (m_bob p)\<lparr>s_position := pos\<rparr>,
           m_string := (m_string p)\<lparr>at1 := (at1 (m_string p))\<lparr>v_position := pos\<rparr>\<rparr>\<rparr>)"

section \<open>The colour ramp\<close>

text \<open>The three locals \<^verbatim>\<open>r\<close>, \<^verbatim>\<open>g\<close> and \<^verbatim>\<open>b\<close> of \<^verbatim>\<open>getColorFromRatio\<close>.\<close>

definition channel_r :: "f32 \<Rightarrow> f32" where
  "channel_r ratio = fmax (lit 0 10) (fsub (lit 10 10) (fmul ratio (lit 20 10)))"

definition channel_g :: "f32 \<Rightarrow> f32" where
  "channel_g ratio = fsub (lit 10 10) (fmul (fabs (fsub ratio (lit 5 10))) (lit 20 10))"

definition channel_b :: "f32 \<Rightarrow> f32" where
  "channel_b ratio = fmax (lit 0 10) (fmul (fsub ratio (lit 5 10)) (lit 20 10))"

text \<open>
  \<^verbatim>\<open>r * 255\<close> multiplies in \<^verbatim>\<open>float\<close> (the \<^verbatim>\<open>int\<close> 255 is converted) and the cast
  truncates; the colour is defined when the three casts are.
\<close>

definition getColorFromRatio :: "f32 \<Rightarrow> Color option" where
  "getColorFromRatio ratio =
     (case to_u8 (fmul (channel_r ratio) (int_to_f32 255)) of
        None \<Rightarrow> None
      | Some r \<Rightarrow>
        (case to_u8 (fmul (channel_g ratio) (int_to_f32 255)) of
           None \<Rightarrow> None
         | Some g \<Rightarrow>
           (case to_u8 (fmul (channel_b ratio) (int_to_f32 255)) of
              None \<Rightarrow> None
            | Some b \<Rightarrow> Some (mkColor r g b))))"

text \<open>
  What the specification words ask of the ramp, to compare with: a ratio outside
  \<open>[0, 1]\<close> replaced by the nearest point of the interval (\<open>clamp01\<close>), and a channel
  scaled by \<open>round (channel * 255)\<close>, to the nearest integer with a half going away
  from zero, clamped to \<open>0..255\<close> (\<open>spec_round_u8\<close>).
\<close>

definition clamp01 :: "f32 \<Rightarrow> f32" where
  "clamp01 ratio =
     (if flt ratio (lit 0 10) then lit 0 10 else if flt (lit 10 10) ratio then lit 10 10 else ratio)"

fun spec_round_u8 :: "f32 \<Rightarrow> 8 word option" where
  "spec_round_u8 (Fin s a) =
     Some (word_of_int (max 0 (min 255 (sval s ((2 * a + 2 ^ 149) div 2 ^ 150)))))"
| "spec_round_u8 NaN = None"
| "spec_round_u8 (Infty s) = None"

section \<open>The set-up of main\<close>

definition SCREEN_WIDTH :: int where "SCREEN_WIDTH = 1800"
definition SCREEN_HEIGHT :: int where "SCREEN_HEIGHT = 1000"
definition NUM_PENDULUMS :: int where "NUM_PENDULUMS = 25"
definition TOTAL_PERIOD_S :: f32 where "TOTAL_PERIOD_S = lit 600 10"
definition BASE_OSCILLATIONS :: int where "BASE_OSCILLATIONS = 50"
definition MAX_AMPLITUDE_DEG :: f32 where "MAX_AMPLITUDE_DEG = lit 220 10"

definition g :: f32 where "g = lit 981 100"

text \<open>
  \<^verbatim>\<open>std::numbers::pi_v<float>\<close> is the binary32 value nearest to \<open>\<pi>\<close>,
  \<open>13176795 * 2\<^sup>-\<^sup>2\<^sup>2\<close> (the bits \<^verbatim>\<open>0x40490FDB\<close>).
\<close>

definition pi_f :: f32 where "pi_f = Fin False (13176795 * 2 ^ 127)"

definition maxAmplitudeRad :: f32 where
  "maxAmplitudeRad = fmul MAX_AMPLITUDE_DEG (fdiv pi_f (lit 1800 10))"

definition longestPeriod :: f32 where
  "longestPeriod = fdiv TOTAL_PERIOD_S (int_to_f32 BASE_OSCILLATIONS)"

definition longestPhysicsL :: "libm \<Rightarrow> f32" where
  "longestPhysicsL M = fmul g (l_pow M (fdiv longestPeriod (fmul (lit 20 10) pi_f)) (lit 20 10))"

definition maxVisualLength :: f32 where
  "maxVisualLength = fmul (int_to_f32 SCREEN_HEIGHT) (lit 8 10)"

definition pixelsPerMeter :: "libm \<Rightarrow> f32" where
  "pixelsPerMeter M = fdiv maxVisualLength (longestPhysicsL M)"

definition pivotPoint :: Vector2f where
  "pivotPoint = \<lparr>vx = fdiv (int_to_f32 SCREEN_WIDTH) (lit 20 10), vy = lit 500 10\<rparr>"

text \<open>The locals of the body of the initialisation loop, for the index \<open>i\<close>.\<close>

definition period :: "int \<Rightarrow> f32" where
  "period i = fdiv TOTAL_PERIOD_S (int_to_f32 (BASE_OSCILLATIONS + i))"

definition angularFreq :: "int \<Rightarrow> f32" where
  "angularFreq i = fdiv (fmul (lit 20 10) pi_f) (period i)"

definition physicsLength :: "libm \<Rightarrow> int \<Rightarrow> f32" where
  "physicsLength M i = fmul g (l_pow M (fdiv (period i) (fmul (lit 20 10) pi_f)) (lit 20 10))"

definition visualLength :: "libm \<Rightarrow> int \<Rightarrow> f32" where
  "visualLength M i = fmul (physicsLength M i) (pixelsPerMeter M)"

definition colorRatio :: "int \<Rightarrow> f32" where
  "colorRatio i = fdiv (int_to_f32 i) (int_to_f32 (NUM_PENDULUMS - 1))"

text \<open>
  A value-initialised \<^verbatim>\<open>Pendulum\<close>: SFML's defaults (white, the origin) and the
  zeros of the member initialisers.
\<close>

definition white :: Color where
  "white = mkColor 255 255 255"

definition origin :: Vector2f where
  "origin = \<lparr>vx = Fin False 0, vy = Fin False 0\<rparr>"

definition Pendulum0 :: Pendulum where
  "Pendulum0 =
     \<lparr>m_string = \<lparr>at0 = \<lparr>v_position = origin, v_color = white\<rparr>,
                   at1 = \<lparr>v_position = origin, v_color = white\<rparr>\<rparr>,
      m_bob = \<lparr>s_radius = Fin False 0, s_origin = origin, s_position = origin,
               s_fillColor = white, s_outlineThickness = Fin False 0,
               s_outlineColor = white\<rparr>,
      m_angularFrequency = Fin False 0,
      m_visualLength = Fin False 0,
      m_amplitudeRad = Fin False 0,
      m_pivotPoint = origin\<rparr>"

text \<open>
  One pass of the loop \<^verbatim>\<open>for (int i = 0; i < NUM_PENDULUMS; ++i)\<close>; it has no result
  where the cast in \<open>getColorFromRatio\<close> is undefined.
\<close>

definition init_pendulum :: "libm \<Rightarrow> int \<Rightarrow> Pendulum option" where
  "init_pendulum M i =
     (case getColorFromRatio (colorRatio i) of
        None \<Rightarrow> None
      | Some col \<Rightarrow>
          Some (Pendulum_setup (angularFreq i) (visualLength M i) maxAmplitudeRad pivotPoint col
                  Pendulum0))"

fun init_pendulums :: "libm \<Rightarrow> int list \<Rightarrow> Pendulum list option" where
  "init_pendulums M [] = Some []"
| "init_pendulums M (i # js) =
     (case init_pendulum M i of
        None \<Rightarrow> None
      | Some p \<Rightarrow> (case init_pendulums M js of None \<Rightarrow> None | Some ps \<Rightarrow> Some (p # ps)))"

section \<open>The game loop\<close>

datatype Key = Key_Space | Key_R | Key_Up | Key_Right | Key_Down | Key_Left | Key_Escape
  | Key_Other

datatype Event = Closed | KeyPressed Key | Resized nat nat | OtherEvent

record Sim =
  pendulums :: "Pendulum list"
  totalSimTime :: f32
  timeScale :: f32
  isPaused :: bool
  isOpen :: bool

text \<open>The state when the loop is entered.\<close>

definition init :: "libm \<Rightarrow> Sim option" where
  "init M =
     (case init_pendulums M [0 .. NUM_PENDULUMS - 1] of
        None \<Rightarrow> None
      | Some ps \<Rightarrow>
          Some \<lparr>pendulums = ps, totalSimTime = lit 0 10, timeScale = lit 10 10,
                isPaused = False, isOpen = True\<rparr>)"

text \<open>The \<^verbatim>\<open>switch\<close> on the key, and the three kinds of event (a resize changes the view only).\<close>

fun handle_key :: "Key \<Rightarrow> Sim \<Rightarrow> Sim" where
  "handle_key Key_Space st = st\<lparr>isPaused := \<not> isPaused st\<rparr>"
| "handle_key Key_R st = st\<lparr>totalSimTime := lit 0 10\<rparr>"
| "handle_key Key_Up st = st\<lparr>timeScale := fmul (timeScale st) (lit 12 10)\<rparr>"
| "handle_key Key_Right st = st\<lparr>timeScale := fmul (timeScale st) (lit 12 10)\<rparr>"
| "handle_key Key_Down st = st\<lparr>timeScale := fdiv (timeScale st) (lit 12 10)\<rparr>"
| "handle_key Key_Left st = st\<lparr>timeScale := fdiv (timeScale st) (lit 12 10)\<rparr>"
| "handle_key Key_Escape st = st\<lparr>isOpen := False\<rparr>"
| "handle_key Key_Other st = st"

fun handle_event :: "Event \<Rightarrow> Sim \<Rightarrow> Sim" where
  "handle_event Closed st = st\<lparr>isOpen := False\<rparr>"
| "handle_event (KeyPressed k) st = handle_key k st"
| "handle_event (Resized w h) st = st"
| "handle_event OtherEvent st = st"

text \<open>
  The clock of the frame, lines 187 to 190: \<^verbatim>\<open>if (!isPaused) totalSimTime += dt * timeScale\<close>,
  as a function of the four variables it reads.
\<close>

definition advance :: "f32 \<Rightarrow> f32 \<Rightarrow> bool \<Rightarrow> f32 \<Rightarrow> f32" where
  "advance dt scale paused now = (if \<not> paused then fadd now (fmul dt scale) else now)"

text \<open>
  The inner loop \<^verbatim>\<open>while (const std::optional event = window.pollEvent())\<close> over the
  events the window has queued: a closed window returns no further event.
\<close>

fun poll_events :: "Event list \<Rightarrow> Sim \<Rightarrow> Sim" where
  "poll_events [] st = st"
| "poll_events (e # es) st = (if isOpen st then poll_events es (handle_event e st) else st)"

text \<open>
  One turn of the outer loop: the events, the clock, the pendulums. A frame is the list
  of its events and the seconds its \<^verbatim>\<open>deltaClock\<close> measured.
\<close>

definition frame :: "libm \<Rightarrow> Event list \<times> f32 \<Rightarrow> Sim \<Rightarrow> Sim" where
  "frame M f st =
     (let st1 = poll_events (fst f) st;
          t = advance (snd f) (timeScale st1) (isPaused st1) (totalSimTime st1)
      in st1\<lparr>totalSimTime := t, pendulums := map (update M t) (pendulums st1)\<rparr>)"

fun run :: "libm \<Rightarrow> (Event list \<times> f32) list \<Rightarrow> Sim \<Rightarrow> Sim" where
  "run M [] st = st"
| "run M (f # fs) st = (if isOpen st then run M fs (frame M f st) else st)"

text \<open>An instance of the library to evaluate with: \<open>cos\<close> constantly 1, \<open>pow\<close> the rounded square.\<close>

definition libm_w :: libm where
  "libm_w = \<lparr>l_sin = (\<lambda>x. x), l_cos = (\<lambda>x. lit 10 10), l_pow = (\<lambda>x y. fmul x x)\<rparr>"

section \<open>Rounding between two values of the format\<close>

text \<open>
  Rounding is monotone against the values of the format: a value of the format that is
  not above the exact quotient is not above the rounded one, and likewise from above.
\<close>

lemma rne_ge: "0 < c \<Longrightarrow> k * c \<le> a \<Longrightarrow> k \<le> rne a c"
proof -
  assume c: "0 < c" and h: "k * c \<le> a"
  then have "k \<le> a div c" by (simp add: less_eq_div_iff_mult_less_eq)
  moreover have "a div c \<le> rne a c" by (simp add: rne_def Let_def)
  ultimately show ?thesis by simp
qed

lemma rne_le: "0 < c \<Longrightarrow> a \<le> k * c \<Longrightarrow> rne a c \<le> k"
proof -
  assume c: "0 < c" and h: "a \<le> k * c"
  have q: "a div c \<le> k" using c h
    by (metis div_le_mono nonzero_mult_div_cancel_right less_numeral_extra(3))
  show ?thesis
  proof (cases "a div c = k")
    case True
    have "a = (a div c) * c + a mod c" by simp
    with True h have "a mod c = 0"
      by (metis add_le_same_cancel1 le_zero_eq)
    with True c show ?thesis by (simp add: rne_def Let_def)
  next
    case False
    with q have "a div c + 1 \<le> k" by simp
    moreover have "rne a c \<le> a div c + 1" by (simp add: rne_def Let_def)
    ultimately show ?thesis by simp
  qed
qed

lemma round_units_ge_dvd:
  assumes b: "0 < b" and d: "2 ^ (floorlog 2 (a div b) - 24) dvd K" and h: "K * b \<le> a"
  shows "K \<le> round_units a b"
proof -
  define sh where "sh = floorlog 2 (a div b) - 24"
  from d obtain k where k: "K = k * 2 ^ sh" unfolding sh_def by (metis dvd_def mult.commute)
  have "k * (b * 2 ^ sh) \<le> a" using h k by (simp add: mult_ac)
  then have "k \<le> rne a (b * 2 ^ sh)" using b by (intro rne_ge) simp_all
  then show ?thesis unfolding round_units_def Let_def sh_def[symmetric] k by simp
qed

lemma fits24_not_dvd:
  assumes f: "fits24 K" and nd: "\<not> 2 ^ (floorlog 2 n - 24) dvd K"
  shows "floorlog 2 K < floorlog 2 n"
proof (rule ccontr)
  assume "\<not> floorlog 2 K < floorlog 2 n"
  then have "floorlog 2 n - 24 \<le> floorlog 2 K - 24" by simp
  then have "(2::nat) ^ (floorlog 2 n - 24) dvd 2 ^ (floorlog 2 K - 24)"
    by (simp add: le_imp_power_dvd)
  with f nd show False unfolding fits24_def using dvd_trans by blast
qed

lemma round_units_ge:
  assumes b: "0 < b" and f: "fits24 K" and h: "K * b \<le> a"
  shows "K \<le> round_units a b"
proof (cases "2 ^ (floorlog 2 (a div b) - 24) dvd K")
  case True
  with b show ?thesis using h by (rule round_units_ge_dvd)
next
  case False
  define n where "n = a div b"
  have fl: "floorlog 2 K < floorlog 2 n" using f False unfolding n_def by (rule fits24_not_dvd)
  then have npos: "0 < n" by (metis floorlog_eq_zero_iff not_less_zero le_zero_eq not_gr_zero)
  define P :: nat where "P = 2 ^ (floorlog 2 n - 1)"
  have Pn: "P \<le> n" unfolding P_def using floorlog_bounds[of n 2] npos by simp
  have "K < 2 ^ floorlog 2 K"
  proof (cases "K = 0")
    case True then show ?thesis by simp
  next
    case False then show ?thesis using floorlog_bounds[of K 2] by simp
  qed
  also have "\<dots> \<le> P" unfolding P_def using fl by (simp add: power_increasing)
  finally have KP: "K < P" .
  have "2 ^ (floorlog 2 n - 24) dvd P" unfolding P_def
    using fl by (intro le_imp_power_dvd) simp
  moreover have "P * b \<le> a" using Pn unfolding n_def
    by (metis b less_eq_div_iff_mult_less_eq)
  ultimately have "P \<le> round_units a b" using b unfolding n_def
    by (intro round_units_ge_dvd) simp_all
  with KP show ?thesis by simp
qed

lemma round_units_le:
  assumes b: "0 < b" and f: "fits24 K" and h: "a \<le> K * b"
  shows "round_units a b \<le> K"
proof (cases "2 ^ (floorlog 2 (a div b) - 24) dvd K")
  case True
  define sh where "sh = floorlog 2 (a div b) - 24"
  from True obtain k where k: "K = k * 2 ^ sh" unfolding sh_def by (metis dvd_def mult.commute)
  have "a \<le> k * (b * 2 ^ sh)" using h k by (simp add: mult_ac)
  then have "rne a (b * 2 ^ sh) \<le> k" using b by (intro rne_le) simp_all
  then show ?thesis unfolding round_units_def Let_def sh_def[symmetric] k by simp
next
  case False
  have fl: "floorlog 2 K < floorlog 2 (a div b)" using f False by (rule fits24_not_dvd)
  have "a div b \<le> K" using b h
    by (metis div_le_mono nonzero_mult_div_cancel_right less_numeral_extra(3))
  then have "floorlog 2 (a div b) \<le> floorlog 2 K" by (rule floorlog_mono)
  with fl show ?thesis by simp
qed

lemma round_units_pos:
  assumes b: "0 < b" and h: "b < 2 * a"
  shows "0 < round_units a b"
proof (cases "b \<le> a")
  case True
  have "floorlog 2 (Suc 0) = Suc 0" by (simp add: compute_floorlog)
  then have "fits24 1" by (simp add: fits24_def)
  then have "1 \<le> round_units a b" using b True by (intro round_units_ge) simp_all
  then show ?thesis by simp
next
  case False
  then have "a div b = 0" by simp
  moreover have "rne a b = 1" using False h by (simp add: rne_def Let_def)
  moreover have "floorlog 2 0 = 0" by (simp add: floorlog_def)
  ultimately show ?thesis by (simp add: round_units_def)
qed

subsection \<open>Every result is a value of the format\<close>

lemma floorlog_2_1 [simp]: "floorlog 2 (Suc 0) = Suc 0" by (simp add: compute_floorlog)
lemma floorlog_2_0: "floorlog 2 0 = 0" by (simp add: floorlog_def)

lemma lt_pow_floorlog: "n < 2 ^ floorlog 2 n"
proof (cases "n = 0")
  case True then show ?thesis by simp
next
  case False then show ?thesis using floorlog_bounds[of n 2] by simp
qed

lemma rne_le_2_24:
  assumes b: "0 < b"
  shows "rne a (b * 2 ^ (floorlog 2 (a div b) - 24)) \<le> 2 ^ 24"
proof -
  define n where "n = a div b"
  define sh where "sh = floorlog 2 n - 24"
  have "n < 2 ^ floorlog 2 n" by (rule lt_pow_floorlog)
  also have "\<dots> \<le> 2 ^ (24 + sh)" unfolding sh_def by (intro power_increasing) simp_all
  finally have "n < 2 ^ 24 * 2 ^ sh" by (simp add: power_add)
  then have "n div 2 ^ sh < 2 ^ 24" by (simp add: less_mult_imp_div_less)
  moreover have "a div (b * 2 ^ sh) = n div 2 ^ sh" unfolding n_def by (simp add: div_mult2_eq)
  moreover have "rne a (b * 2 ^ sh) \<le> a div (b * 2 ^ sh) + 1" by (simp add: rne_def Let_def)
  ultimately show ?thesis unfolding sh_def n_def by simp
qed

lemma fits24_shift:
  assumes m: "m \<le> 2 ^ 24"
  shows "fits24 (m * 2 ^ sh)"
proof -
  consider "m = 0" | "0 < m" "m < 2 ^ 24" | "m = 2 ^ 24" using m by fastforce
  then show ?thesis
  proof cases
    case 1 then show ?thesis by (simp add: fits24_def)
  next
    case 2
    have "floorlog 2 m \<le> 24" using 2 by (simp add: floorlog_le_iff)
    then have "floorlog 2 (m * 2 ^ sh) - 24 \<le> sh" using 2 by simp
    then have "(2::nat) ^ (floorlog 2 (m * 2 ^ sh) - 24) dvd 2 ^ sh" by (rule le_imp_power_dvd)
    then show ?thesis unfolding fits24_def by (rule dvd_mult)
  next
    case 3
    have "floorlog 2 (1 * 2 ^ (24 + sh)) = floorlog 2 1 + (24 + sh)"
      by (rule floorlog_power) simp_all
    then have "floorlog 2 (m * 2 ^ sh) = 25 + sh" using 3 by (simp add: power_add)
    moreover have "(2::nat) ^ (sh + 1) dvd 2 ^ (24 + sh)" by (rule le_imp_power_dvd) simp
    ultimately show ?thesis unfolding fits24_def using 3 by (simp add: power_add)
  qed
qed

lemma fits24_round_units: "0 < b \<Longrightarrow> fits24 (round_units a b)"
  unfolding round_units_def Let_def by (intro fits24_shift rne_le_2_24)

lemma round_units_exact: "0 < b \<Longrightarrow> fits24 K \<Longrightarrow> round_units (K * b) b = K"
  by (intro antisym round_units_le round_units_ge) simp_all

lemma valid_mk: "0 < b \<Longrightarrow> valid (mk_f32 s (round_units a b))"
  by (simp add: valid_def mk_f32_def fits24_round_units)

lemma valid_fadd: "valid (fadd x y)"
  by (cases x; cases y) (simp_all add: valid_mk, simp_all add: valid_def fits24_def)

lemma valid_fmul: "valid (fmul x y)"
  by (cases x; cases y) (simp_all add: valid_mk, simp_all add: valid_def fits24_def)

lemma valid_fdiv: "valid (fdiv x y)"
  by (cases x; cases y) (simp_all add: valid_mk, simp_all add: valid_def fits24_def)

subsection \<open>The literals\<close>

lemma lit_0: "lit 0 10 = Fin False 0"
  by (simp add: lit_def mk_f32_def round_units_def rne_def Let_def compute_floorlog)
lemma lit_1: "lit 10 10 = Fin False (2 ^ 149)"
  by (simp add: lit_def mk_f32_def round_units_def rne_def Let_def compute_floorlog)
lemma lit_2: "lit 20 10 = Fin False (2 ^ 150)"
  by (simp add: lit_def mk_f32_def round_units_def rne_def Let_def compute_floorlog)
lemma lit_half: "lit 5 10 = Fin False (2 ^ 148)"
  by (simp add: lit_def mk_f32_def round_units_def rne_def Let_def compute_floorlog)
lemma lit_1_2: "lit 12 10 = Fin False (10066330 * 2 ^ 126)"
  by (simp add: lit_def mk_f32_def round_units_def rne_def Let_def compute_floorlog)
lemma f_255: "int_to_f32 255 = Fin False (255 * 2 ^ 149)"
  by (simp add: int_to_f32_def mk_f32_def round_units_def rne_def Let_def compute_floorlog)

section \<open>What the loop keeps\<close>

text \<open>
  Multiplying and dividing by \<open>1.2f\<close> keep a positive \<open>timeScale\<close> positive, whatever the
  events; \<open>totalSimTime\<close> stays a value of the format.
\<close>

lemma flt_zero_iff: "flt (Fin False 0) x \<longleftrightarrow> x = Infty False \<or> (\<exists>n. 0 < n \<and> x = Fin False n)"
  by (cases x) (auto simp: sval_def)

lemma mk_pos: "0 < n \<Longrightarrow> flt (Fin False 0) (mk_f32 False n)"
  by (simp add: mk_f32_def sval_def)

lemma fmul_12_pos:
  assumes "flt (Fin False 0) x"
  shows "flt (Fin False 0) (fmul x (lit 12 10))"
proof -
  from assms consider "x = Infty False" | n where "0 < n" "x = Fin False n"
    by (auto simp: flt_zero_iff)
  then show ?thesis
  proof cases
    case 1 then show ?thesis by (simp add: lit_1_2)
  next
    case 2
    have "fits24 1" by (simp add: fits24_def)
    then have "1 \<le> round_units (n * (10066330 * 2 ^ 126)) (2 ^ 149)"
    proof (rule round_units_ge[rotated])
      have "(1::nat) * 2 ^ 149 \<le> 1 * (10066330 * 2 ^ 126)" by simp
      also have "\<dots> \<le> n * (10066330 * 2 ^ 126)" using 2(1) by (intro mult_le_mono1) simp
      finally show "1 * 2 ^ 149 \<le> n * (10066330 * 2 ^ 126)" .
    qed simp
    then show ?thesis using 2 by (simp add: lit_1_2 mk_pos del: power_numeral)
  qed
qed

lemma fdiv_12_pos:
  assumes "flt (Fin False 0) x"
  shows "flt (Fin False 0) (fdiv x (lit 12 10))"
proof -
  from assms consider "x = Infty False" | n where "0 < n" "x = Fin False n"
    by (auto simp: flt_zero_iff)
  then show ?thesis
  proof cases
    case 1 then show ?thesis by (simp add: lit_1_2)
  next
    case 2
    have "(10066330 * 2 ^ 126 :: nat) < 2 * (1 * 2 ^ 149)" by simp
    also have "\<dots> \<le> 2 * (n * 2 ^ 149)" using 2(1)
      by (intro mult_le_mono2 mult_le_mono1) simp
    finally have "0 < round_units (n * 2 ^ 149) (10066330 * 2 ^ 126)"
      by (intro round_units_pos) simp_all
    then show ?thesis using 2 by (simp add: lit_1_2 mk_pos del: power_numeral)
  qed
qed

lemma handle_key_scale:
  "flt (Fin False 0) (timeScale st) \<Longrightarrow> flt (Fin False 0) (timeScale (handle_key k st))"
  by (cases k) (simp_all add: fmul_12_pos fdiv_12_pos)

lemma handle_event_scale:
  "flt (Fin False 0) (timeScale st) \<Longrightarrow> flt (Fin False 0) (timeScale (handle_event e st))"
  by (cases e) (simp_all add: handle_key_scale)

lemma poll_events_scale:
  "flt (Fin False 0) (timeScale st) \<Longrightarrow> flt (Fin False 0) (timeScale (poll_events es st))"
  by (induction es arbitrary: st) (simp_all add: handle_event_scale)

lemma frame_scale:
  "flt (Fin False 0) (timeScale st) \<Longrightarrow> flt (Fin False 0) (timeScale (frame M f st))"
  by (simp add: frame_def Let_def poll_events_scale)

lemma run_scale:
  "flt (Fin False 0) (timeScale st) \<Longrightarrow> flt (Fin False 0) (timeScale (run M fs st))"
  by (induction fs arbitrary: st) (simp_all add: frame_scale)

lemma valid_lit_0: "valid (lit 0 10)"
  by (simp add: lit_0 valid_def fits24_def floorlog_2_0)

lemma handle_key_valid:
  "valid (totalSimTime st) \<Longrightarrow> valid (totalSimTime (handle_key k st))"
  by (cases k) (simp_all add: valid_lit_0)

lemma handle_event_valid:
  "valid (totalSimTime st) \<Longrightarrow> valid (totalSimTime (handle_event e st))"
  by (cases e) (simp_all add: handle_key_valid)

lemma poll_events_valid:
  "valid (totalSimTime st) \<Longrightarrow> valid (totalSimTime (poll_events es st))"
  by (induction es arbitrary: st) (simp_all add: handle_event_valid)

lemma valid_advance: "valid now \<Longrightarrow> valid (advance dt scale paused now)"
  by (simp add: advance_def valid_fadd)

lemma frame_valid:
  "valid (totalSimTime st) \<Longrightarrow> valid (totalSimTime (frame M f st))"
  by (simp add: frame_def Let_def poll_events_valid valid_advance)

lemma run_valid:
  "valid (totalSimTime st) \<Longrightarrow> valid (totalSimTime (run M fs st))"
  by (induction fs arbitrary: st) (simp_all add: frame_valid)

lemma init_fields:
  "init M = Some st \<Longrightarrow> totalSimTime st = lit 0 10 \<and> timeScale st = lit 10 10 \<and> \<not> isPaused st \<and> isOpen st"
  by (auto simp: init_def split: option.splits)

text \<open>
  A product with a positive \<open>timeScale\<close> has the sign of \<open>dt\<close>; adding a value that is not
  negative never gives less; adding to \<open>+0\<close> gives the value added, \<open>-0\<close> apart.
\<close>

lemma round_units_0: "round_units 0 b = 0"
  by (simp add: round_units_def rne_def floorlog_2_0)

lemma fmul_nonneg:
  assumes sc: "flt (Fin False 0) scale" and dt: "\<not> flt dt (Fin False 0)"
  shows "\<not> flt (fmul dt scale) (Fin False 0)"
proof -
  from sc consider "scale = Infty False" | n where "0 < n" "scale = Fin False n"
    by (auto simp: flt_zero_iff)
  then show ?thesis
  proof cases
    case 1 then show ?thesis using dt by (cases dt) (auto simp: sval_def)
  next
    case 2 then show ?thesis using dt
      by (cases dt) (auto simp: sval_def mk_f32_def round_units_0 split: if_splits)
  qed
qed

lemma fadd_not_back:
  assumes v: "valid now" and p: "\<not> flt p (Fin False 0)"
  shows "\<not> flt (fadd now p) now"
proof (cases now)
  case NaN then show ?thesis by (cases p) simp_all
next
  case (Infty s) then show ?thesis using p by (cases p) (auto simp: sval_def)
next
  case (Fin s a)
  with v have fa: "fits24 a" and la: "a < 2 ^ 277" by (simp_all add: valid_def)
  have ex: "round_units a 1 = a" using round_units_exact[of 1 a] fa by simp
  show ?thesis
  proof (cases p)
    case NaN then show ?thesis using Fin by simp
  next
    case (Infty t) then show ?thesis using Fin p by simp
  next
    case (Fin t b)
    have ge: "a \<le> round_units (a + b) 1" using fa by (intro round_units_ge) simp_all
    have le: "round_units (a - b) 1 \<le> a" using fa by (intro round_units_le) simp_all
    from le la have lt: "round_units (a - b) 1 < 2 ^ 277" by simp
    from p Fin have tb: "\<not> t \<or> b = 0" by (auto simp: sval_def split: if_splits)
    show ?thesis using \<open>now = Fin s a\<close> Fin tb ge le lt ex la
      by (auto simp: sval_def mk_f32_def simp del: power_numeral split: if_splits)
  qed
qed

lemma fadd_zero_left:
  assumes v: "valid p"
  shows "fadd (Fin False 0) p = (if p = Fin True 0 then Fin False 0 else p)"
proof (cases p)
  case (Fin t b)
  with v have fb: "fits24 b" and lb: "b < 2 ^ 277" by (simp_all add: valid_def)
  have ex: "round_units b 1 = b" using round_units_exact[of 1 b] fb by simp
  show ?thesis using Fin ex lb by (auto simp: mk_f32_def simp del: power_numeral)
qed simp_all

section \<open>Bounds through the operations\<close>

text \<open>
  The bounds of the first section with signs, and through the operations: the sum of two
  bounded values, the product with a positive constant, the negation, the absolute value
  and the maximum with zero.
\<close>

lemma mk_atleast:
  assumes b: "0 < b" and f: "fitsI L" and s1: "s \<Longrightarrow> z \<le> 0" and s2: "\<not> s \<Longrightarrow> 0 \<le> z"
    and h: "L * int b \<le> z"
  shows "atleast L (mk_f32 s (round_units (nat \<bar>z\<bar>) b))"
proof (cases s)
  case False
  then have z: "0 \<le> z" by (rule s2)
  show ?thesis
  proof (cases "L \<le> 0")
    case True
    then show ?thesis using False by (simp add: atleast_def mk_f32_def sval_def)
  next
    case Lpos: False
    have "int (nat L * b) \<le> int (nat \<bar>z\<bar>)" using h z Lpos by simp
    then have "nat L * b \<le> nat \<bar>z\<bar>" by (simp only: of_nat_le_iff)
    moreover have "fits24 (nat L)" using f Lpos by (simp add: fitsI_def)
    ultimately have "nat L \<le> round_units (nat \<bar>z\<bar>) b" using b by (intro round_units_ge)
    then have "L \<le> int (round_units (nat \<bar>z\<bar>) b)" by simp
    then show ?thesis using False by (simp add: atleast_def mk_f32_def sval_def)
  qed
next
  case True
  then have z: "z \<le> 0" by (rule s1)
  have Lz: "L \<le> 0"
  proof (rule ccontr)
    assume "\<not> L \<le> 0"
    then have "0 < L * int b" using b by simp
    with h z show False by simp
  qed
  have "int (nat \<bar>z\<bar>) \<le> int (nat \<bar>L\<bar> * b)" using h z Lz by simp
  then have "nat \<bar>z\<bar> \<le> nat \<bar>L\<bar> * b" by (simp only: of_nat_le_iff)
  moreover have "fits24 (nat \<bar>L\<bar>)" using f by (simp add: fitsI_def)
  ultimately have r: "round_units (nat \<bar>z\<bar>) b \<le> nat \<bar>L\<bar>" using b by (intro round_units_le)
  moreover have "nat \<bar>L\<bar> < 2 ^ 277" using f by (simp add: fitsI_def nat_less_iff)
  ultimately have "round_units (nat \<bar>z\<bar>) b < 2 ^ 277" by simp
  moreover have "L \<le> - int (round_units (nat \<bar>z\<bar>) b)" using r Lz by simp
  ultimately show ?thesis using True by (simp add: atleast_def mk_f32_def sval_def)
qed

lemma mk_atmost:
  assumes b: "0 < b" and f: "fitsI H" and s1: "s \<Longrightarrow> z \<le> 0" and s2: "\<not> s \<Longrightarrow> 0 \<le> z"
    and h: "z \<le> H * int b"
  shows "atmost H (mk_f32 s (round_units (nat \<bar>z\<bar>) b))"
proof (cases s)
  case True
  then have z: "z \<le> 0" by (rule s1)
  show ?thesis
  proof (cases "0 \<le> H")
    case True
    then show ?thesis using \<open>s\<close> by (simp add: atmost_def mk_f32_def sval_def)
  next
    case Hneg: False
    have "int (nat \<bar>H\<bar> * b) \<le> int (nat \<bar>z\<bar>)" using h z Hneg by simp
    then have "nat \<bar>H\<bar> * b \<le> nat \<bar>z\<bar>" by (simp only: of_nat_le_iff)
    moreover have "fits24 (nat \<bar>H\<bar>)" using f by (simp add: fitsI_def)
    ultimately have "nat \<bar>H\<bar> \<le> round_units (nat \<bar>z\<bar>) b" using b by (intro round_units_ge)
    then have "- int (round_units (nat \<bar>z\<bar>) b) \<le> H" using Hneg by simp
    then show ?thesis using \<open>s\<close> by (simp add: atmost_def mk_f32_def sval_def)
  qed
next
  case False
  then have z: "0 \<le> z" by (rule s2)
  have Hz: "0 \<le> H"
  proof (rule ccontr)
    assume "\<not> 0 \<le> H"
    then have "H * int b < 0" using b by (simp add: mult_less_0_iff)
    with h z show False by simp
  qed
  have "int (nat \<bar>z\<bar>) \<le> int (nat \<bar>H\<bar> * b)" using h z Hz by simp
  then have "nat \<bar>z\<bar> \<le> nat \<bar>H\<bar> * b" by (simp only: of_nat_le_iff)
  moreover have "fits24 (nat \<bar>H\<bar>)" using f by (simp add: fitsI_def)
  ultimately have r: "round_units (nat \<bar>z\<bar>) b \<le> nat \<bar>H\<bar>" using b by (intro round_units_le)
  moreover have "nat \<bar>H\<bar> < 2 ^ 277" using f by (simp add: fitsI_def nat_less_iff)
  ultimately have "round_units (nat \<bar>z\<bar>) b < 2 ^ 277" by simp
  moreover have "int (round_units (nat \<bar>z\<bar>) b) \<le> H" using r Hz by simp
  ultimately show ?thesis using False by (simp add: atmost_def mk_f32_def sval_def)
qed

lemma mk_atleast_int:
  assumes "0 < b" "fitsI L" "s \<Longrightarrow> z \<le> 0" "\<not> s \<Longrightarrow> 0 \<le> z" "L * int b \<le> z" "int m = \<bar>z\<bar>"
  shows "atleast L (mk_f32 s (round_units m b))"
proof -
  have "m = nat \<bar>z\<bar>" using assms(6) by simp
  then show ?thesis using mk_atleast [OF assms(1-5)] by simp
qed

lemma mk_atmost_int:
  assumes "0 < b" "fitsI H" "s \<Longrightarrow> z \<le> 0" "\<not> s \<Longrightarrow> 0 \<le> z" "z \<le> H * int b" "int m = \<bar>z\<bar>"
  shows "atmost H (mk_f32 s (round_units m b))"
proof -
  have "m = nat \<bar>z\<bar>" using assms(6) by simp
  then show ?thesis using mk_atmost [OF assms(1-5)] by simp
qed

lemma fadd_atleast:
  assumes x: "atleast Lx x" and y: "atleast Ly y" and f: "fitsI L" and h: "L \<le> Lx + Ly"
  shows "atleast L (fadd x y)"
proof (cases x)
  case NaN with x show ?thesis by (simp add: atleast_def)
next
  case (Infty s) with x y show ?thesis by (cases y) (simp_all add: atleast_def)
next
  case (Fin s a)
  show ?thesis
  proof (cases y)
    case NaN with y show ?thesis by (simp add: atleast_def)
  next
    case (Infty t) with y Fin show ?thesis by (simp add: atleast_def)
  next
    case Fy: (Fin t b)
    define z where "z = sval s a + sval t b"
    have hz: "L * int 1 \<le> z" using x y h Fin Fy by (simp add: atleast_def z_def)
    have L0: "a = b \<Longrightarrow> s \<noteq> t \<Longrightarrow> L \<le> 0" using hz by (auto simp: z_def sval_def)
    have c1: "s = t \<Longrightarrow> atleast L (mk_f32 s (round_units (a + b) 1))"
      by (rule mk_atleast_int [of 1 L s z, OF _ f _ _ hz]) (auto simp: z_def sval_def)
    have c2: "s \<noteq> t \<Longrightarrow> b < a \<Longrightarrow> atleast L (mk_f32 s (round_units (a - b) 1))"
      by (rule mk_atleast_int [of 1 L s z, OF _ f _ _ hz]) (auto simp: z_def sval_def)
    have c3: "s \<noteq> t \<Longrightarrow> a < b \<Longrightarrow> atleast L (mk_f32 t (round_units (b - a) 1))"
      by (rule mk_atleast_int [of 1 L t z, OF _ f _ _ hz]) (auto simp: z_def sval_def)
    have "a = b \<or> a < b \<or> b < a" by auto
    then show ?thesis using Fin Fy c1 c2 c3 L0
      by (auto simp: atleast_def sval_def)
  qed
qed

lemma fadd_atmost:
  assumes x: "atmost Hx x" and y: "atmost Hy y" and f: "fitsI H" and h: "Hx + Hy \<le> H"
  shows "atmost H (fadd x y)"
proof (cases x)
  case NaN with x show ?thesis by (simp add: atmost_def)
next
  case (Infty s) with x y show ?thesis by (cases y) (simp_all add: atmost_def)
next
  case (Fin s a)
  show ?thesis
  proof (cases y)
    case NaN with y show ?thesis by (simp add: atmost_def)
  next
    case (Infty t) with y Fin show ?thesis by (simp add: atmost_def)
  next
    case Fy: (Fin t b)
    define z where "z = sval s a + sval t b"
    have hz: "z \<le> H * int 1" using x y h Fin Fy by (simp add: atmost_def z_def)
    have H0: "a = b \<Longrightarrow> s \<noteq> t \<Longrightarrow> 0 \<le> H" using hz by (auto simp: z_def sval_def)
    have c1: "s = t \<Longrightarrow> atmost H (mk_f32 s (round_units (a + b) 1))"
      by (rule mk_atmost_int [of 1 H s z, OF _ f _ _ hz]) (auto simp: z_def sval_def)
    have c2: "s \<noteq> t \<Longrightarrow> b < a \<Longrightarrow> atmost H (mk_f32 s (round_units (a - b) 1))"
      by (rule mk_atmost_int [of 1 H s z, OF _ f _ _ hz]) (auto simp: z_def sval_def)
    have c3: "s \<noteq> t \<Longrightarrow> a < b \<Longrightarrow> atmost H (mk_f32 t (round_units (b - a) 1))"
      by (rule mk_atmost_int [of 1 H t z, OF _ f _ _ hz]) (auto simp: z_def sval_def)
    have "a = b \<or> a < b \<or> b < a" by auto
    then show ?thesis using Fin Fy c1 c2 c3 H0
      by (auto simp: atmost_def sval_def)
  qed
qed

lemma fmul_atleast:
  assumes x: "atleast Lx x" and c: "0 < c" and f: "fitsI L" and h: "L * 2 ^ 149 \<le> Lx * int c"
  shows "atleast L (fmul x (Fin False c))"
proof (cases x)
  case NaN with x show ?thesis by (simp add: atleast_def)
next
  case (Infty s) with x c show ?thesis by (simp add: atleast_def)
next
  case (Fin s a)
  define z where "z = sval s a * int c"
  have "Lx * int c \<le> z" using x Fin c by (simp add: atleast_def z_def)
  with h have hz: "L * int (2 ^ 149) \<le> z" by simp
  have "atleast L (mk_f32 s (round_units (a * c) (2 ^ 149)))"
    by (rule mk_atleast_int [of "2 ^ 149" L s z, OF _ f _ _ hz])
       (auto simp: z_def sval_def mult_le_0_iff abs_mult)
  then show ?thesis using Fin by simp
qed

lemma fmul_atmost:
  assumes x: "atmost Hx x" and c: "0 < c" and f: "fitsI H" and h: "Hx * int c \<le> H * 2 ^ 149"
  shows "atmost H (fmul x (Fin False c))"
proof (cases x)
  case NaN with x show ?thesis by (simp add: atmost_def)
next
  case (Infty s) with x c show ?thesis by (simp add: atmost_def)
next
  case (Fin s a)
  define z where "z = sval s a * int c"
  have "z \<le> Hx * int c" using x Fin c by (simp add: atmost_def z_def)
  with h have hz: "z \<le> H * int (2 ^ 149)" by simp
  have "atmost H (mk_f32 s (round_units (a * c) (2 ^ 149)))"
    by (rule mk_atmost_int [of "2 ^ 149" H s z, OF _ f _ _ hz])
       (auto simp: z_def sval_def mult_le_0_iff abs_mult)
  then show ?thesis using Fin by simp
qed

lemma fneg_atleast: "atleast L (fneg x) = atmost (- L) x"
  by (cases x) (auto simp: atleast_def atmost_def sval_def)

lemma fneg_atmost: "atmost H (fneg x) = atleast (- H) x"
  by (cases x) (auto simp: atleast_def atmost_def sval_def)

lemma fabs_atleast_pos: "atleast L x \<Longrightarrow> atleast L (fabs x)"
  by (cases x) (auto simp: atleast_def sval_def split: if_splits)

lemma fabs_atleast_neg: "atmost H x \<Longrightarrow> atleast (- H) (fabs x)"
  by (cases x) (auto simp: atleast_def atmost_def sval_def split: if_splits)

lemma fabs_atmost: "atleast (- H) x \<Longrightarrow> atmost H x \<Longrightarrow> atmost H (fabs x)"
  by (cases x) (auto simp: atleast_def atmost_def sval_def split: if_splits)

lemma fmax0_atleast: "atleast L x \<Longrightarrow> atleast (max L 0) (fmax (Fin False 0) x)"
  by (cases x) (auto simp: fmax_def atleast_def sval_def split: if_splits)

lemma fmax0_atmost: "atmost H x \<Longrightarrow> 0 \<le> H \<Longrightarrow> atmost H (fmax (Fin False 0) x)"
  by (cases x) (auto simp: fmax_def atmost_def sval_def split: if_splits)

lemma fmax0_zero: "atmost 0 x \<Longrightarrow> fmax (Fin False 0) x = Fin False 0"
  by (cases x) (auto simp: fmax_def atmost_def sval_def split: if_splits)

lemma atleast_weaken: "atleast L x \<Longrightarrow> L' \<le> L \<Longrightarrow> atleast L' x"
  by (cases x) (auto simp: atleast_def)

lemma atmost_weaken: "atmost H x \<Longrightarrow> H \<le> H' \<Longrightarrow> atmost H' x"
  by (cases x) (auto simp: atmost_def)

lemma fitsI_neg: "fitsI (- K) = fitsI K"
  by (simp add: fitsI_def)

lemma fitsI_int:
  assumes "fits24 K" "K < 2 ^ 277"
  shows "fitsI (int K)"
proof -
  have "int K < int (2 ^ 277)" using assms(2) by (simp only: of_nat_less_iff)
  then have "\<bar>int K\<bar> < 2 ^ 277" by simp
  moreover have "nat \<bar>int K\<bar> = K" by simp
  ultimately show ?thesis unfolding fitsI_def using assms(1) by simp
qed

lemma fitsI_shift: "m \<le> 2 ^ 24 \<Longrightarrow> m * 2 ^ sh < 2 ^ 277 \<Longrightarrow> fitsI (int (m * 2 ^ sh))"
  by (intro fitsI_int fits24_shift)

lemma fitsI_consts:
  "fitsI 0" "fitsI (2 ^ 148)" "fitsI (2 ^ 149)" "fitsI (2 ^ 150)" "fitsI (255 * 2 ^ 149)"
  using fitsI_shift [of 0 0] fitsI_shift [of 1 148] fitsI_shift [of 1 149] fitsI_shift [of 1 150]
    fitsI_shift [of 255 149]
  by simp_all

lemma fle_zero: "fle (Fin False 0) x = atleast 0 x"
  by (cases x) (simp_all add: atleast_def sval_def)

lemma fle_const: "fle x (Fin False c) = atmost (int c) x"
  by (cases x) (simp_all add: atmost_def sval_def)

lemma flt_neg: "flt x (Fin False 0) = atmost (- 1) x"
  by (cases x) (auto simp: atmost_def sval_def)

lemma flt_const: "flt (Fin False c) x = atleast (int c + 1) x"
  by (cases x) (auto simp: atleast_def sval_def)


section \<open>The channels of the colour ramp\<close>

text \<open>
  For a ratio in \<open>[0, 1]\<close> each channel lies in \<open>[0, 1]\<close> and its product with 255 in
  \<open>[0, 255]\<close>, so the three casts are defined. For a ratio below 0 (above 1) the red
  channel is 1 or more (0), the green one 0 or less, the blue one 0 (1 or more): where
  the casts are defined, the colour is the one of the end of the interval.
\<close>

lemma fsub_atleast:
  "atleast Lx x \<Longrightarrow> atmost Hy y \<Longrightarrow> fitsI L \<Longrightarrow> L \<le> Lx - Hy \<Longrightarrow> atleast L (fsub x y)"
  unfolding fsub_def by (rule fadd_atleast [where Ly = "- Hy"]) (simp_all add: fneg_atleast)

lemma fsub_atmost:
  "atmost Hx x \<Longrightarrow> atleast Ly y \<Longrightarrow> fitsI H \<Longrightarrow> Hx - Ly \<le> H \<Longrightarrow> atmost H (fsub x y)"
  unfolding fsub_def by (rule fadd_atmost [where Hy = "- Ly"]) (simp_all add: fneg_atmost)

lemma mul2_atleast: "atleast L x \<Longrightarrow> fitsI (2 * L) \<Longrightarrow> atleast (2 * L) (fmul x (lit 20 10))"
  unfolding lit_2 by (rule fmul_atleast [where Lx = L]) simp_all

lemma mul2_atmost: "atmost H x \<Longrightarrow> fitsI (2 * H) \<Longrightarrow> atmost (2 * H) (fmul x (lit 20 10))"
  unfolding lit_2 by (rule fmul_atmost [where Hx = H]) simp_all

lemma mul255_atleast:
  "atleast L x \<Longrightarrow> fitsI (255 * L) \<Longrightarrow> atleast (255 * L) (fmul x (int_to_f32 255))"
  unfolding f_255 by (rule fmul_atleast [where Lx = L]) simp_all

lemma mul255_atmost:
  "atmost H x \<Longrightarrow> fitsI (255 * H) \<Longrightarrow> atmost (255 * H) (fmul x (int_to_f32 255))"
  unfolding f_255 by (rule fmul_atmost [where Hx = H]) simp_all

lemma one_bounds: "atleast (2 ^ 149) (lit 10 10)" "atmost (2 ^ 149) (lit 10 10)"
  by (simp_all add: lit_1 atleast_def atmost_def sval_def)

lemma half_bounds: "atleast (2 ^ 148) (lit 5 10)" "atmost (2 ^ 148) (lit 5 10)"
  by (simp_all add: lit_half atleast_def atmost_def sval_def)

lemma channel_r_inside:
  assumes lo: "atleast 0 q" and hi: "atmost (2 ^ 149) q"
  shows "atleast 0 (channel_r q)" "atmost (2 ^ 149) (channel_r q)"
proof -
  have m1: "atleast (2 * 0) (fmul q (lit 20 10))" using lo by (rule mul2_atleast) (simp add: fitsI_consts)
  have m2: "atmost (2 * 2 ^ 149) (fmul q (lit 20 10))" using hi
    by (rule mul2_atmost) (use fitsI_consts in simp)
  have d1: "atleast (- (2 ^ 149)) (fsub (lit 10 10) (fmul q (lit 20 10)))"
    using one_bounds(1) m2 by (rule fsub_atleast) (use fitsI_consts in \<open>simp_all add: fitsI_neg\<close>)
  have d2: "atmost (2 ^ 149) (fsub (lit 10 10) (fmul q (lit 20 10)))"
    using one_bounds(2) m1 by (rule fsub_atmost) (use fitsI_consts in simp_all)
  show "atleast 0 (channel_r q)" unfolding channel_r_def lit_0
    using fmax0_atleast [OF d1] by simp
  show "atmost (2 ^ 149) (channel_r q)" unfolding channel_r_def lit_0
    using fmax0_atmost [OF d2] by simp
qed

lemma channel_g_inside:
  assumes lo: "atleast 0 q" and hi: "atmost (2 ^ 149) q"
  shows "atleast 0 (channel_g q)" "atmost (2 ^ 149) (channel_g q)"
proof -
  let ?d = "fsub q (lit 5 10)"
  have d1: "atleast (- (2 ^ 148)) ?d"
    using lo half_bounds(2) by (rule fsub_atleast) (use fitsI_consts in \<open>simp_all add: fitsI_neg\<close>)
  have d2: "atmost (2 ^ 148) ?d"
    using hi half_bounds(1) by (rule fsub_atmost) (use fitsI_consts in simp_all)
  have a1: "atleast 0 (fabs ?d)"
    using d1 by (cases ?d) (auto simp: atleast_def sval_def)
  have a2: "atmost (2 ^ 148) (fabs ?d)" using d1 d2 by (intro fabs_atmost) simp_all
  have m1: "atleast (2 * 0) (fmul (fabs ?d) (lit 20 10))" using a1
    by (rule mul2_atleast) (simp add: fitsI_consts)
  have m2: "atmost (2 * 2 ^ 148) (fmul (fabs ?d) (lit 20 10))" using a2
    by (rule mul2_atmost) (use fitsI_consts in simp)
  show "atleast 0 (channel_g q)" unfolding channel_g_def
    using one_bounds(1) m2 by (rule fsub_atleast) (use fitsI_consts in simp_all)
  show "atmost (2 ^ 149) (channel_g q)" unfolding channel_g_def
    using one_bounds(2) m1 by (rule fsub_atmost) (use fitsI_consts in simp_all)
qed

lemma channel_b_inside:
  assumes lo: "atleast 0 q" and hi: "atmost (2 ^ 149) q"
  shows "atleast 0 (channel_b q)" "atmost (2 ^ 149) (channel_b q)"
proof -
  let ?d = "fsub q (lit 5 10)"
  have d1: "atleast (- (2 ^ 148)) ?d"
    using lo half_bounds(2) by (rule fsub_atleast) (use fitsI_consts in \<open>simp_all add: fitsI_neg\<close>)
  have d2: "atmost (2 ^ 148) ?d"
    using hi half_bounds(1) by (rule fsub_atmost) (use fitsI_consts in simp_all)
  have m1: "atleast (2 * - (2 ^ 148)) (fmul ?d (lit 20 10))" using d1
    by (rule mul2_atleast) (use fitsI_consts in \<open>simp add: fitsI_neg\<close>)
  have m2: "atmost (2 * 2 ^ 148) (fmul ?d (lit 20 10))" using d2
    by (rule mul2_atmost) (use fitsI_consts in simp)
  show "atleast 0 (channel_b q)" unfolding channel_b_def lit_0
    using fmax0_atleast [OF m1] by simp
  show "atmost (2 ^ 149) (channel_b q)" unfolding channel_b_def lit_0
    using fmax0_atmost [OF m2] by simp
qed

lemma to_u8_inside:
  assumes lo: "atleast 0 x" and hi: "atmost (255 * 2 ^ 149) x"
  shows "\<exists>w. to_u8 x = Some w \<and> ftrunc x = Some (uint w)"
proof (cases x)
  case NaN with lo show ?thesis by (simp add: atleast_def)
next
  case (Infty s) with lo hi show ?thesis by (simp add: atleast_def atmost_def)
next
  case (Fin s a)
  define t where "t = sval s (a div 2 ^ 149)"
  have a: "a \<le> 255 * 2 ^ 149" "s \<Longrightarrow> a = 0" using lo hi Fin
    by (auto simp: atleast_def atmost_def sval_def split: if_splits)
  then have "a div 2 ^ 149 \<le> 255" by (simp add: div_le_mono)
  then have t: "0 \<le> t" "t \<le> 255" using a(2) by (auto simp: t_def sval_def)
  then have "uint (word_of_int t :: 8 word) = t" by (simp add: uint_word_of_int)
  then show ?thesis using Fin t by (simp add: to_u8_def t_def)
qed

lemma scaled_inside:
  assumes "atleast 0 x" "atmost (2 ^ 149) x"
  shows "\<exists>w. to_u8 (fmul x (int_to_f32 255)) = Some w \<and>
             ftrunc (fmul x (int_to_f32 255)) = Some (uint w)"
proof (rule to_u8_inside)
  show "atleast 0 (fmul x (int_to_f32 255))"
    using mul255_atleast [OF assms(1)] fitsI_consts by simp
  show "atmost (255 * 2 ^ 149) (fmul x (int_to_f32 255))"
    using mul255_atmost [OF assms(2)] fitsI_consts by simp
qed

lemma color_inside:
  assumes lo: "atleast 0 q" and hi: "atmost (2 ^ 149) q"
  shows "\<exists>r g b. getColorFromRatio q = Some (mkColor r g b) \<and>
     ftrunc (fmul (channel_r q) (int_to_f32 255)) = Some (uint r) \<and>
     ftrunc (fmul (channel_g q) (int_to_f32 255)) = Some (uint g) \<and>
     ftrunc (fmul (channel_b q) (int_to_f32 255)) = Some (uint b)"
proof -
  obtain r where r: "to_u8 (fmul (channel_r q) (int_to_f32 255)) = Some r"
      "ftrunc (fmul (channel_r q) (int_to_f32 255)) = Some (uint r)"
    using scaled_inside [OF channel_r_inside [OF lo hi]] by blast
  obtain g' where g': "to_u8 (fmul (channel_g q) (int_to_f32 255)) = Some g'"
      "ftrunc (fmul (channel_g q) (int_to_f32 255)) = Some (uint g')"
    using scaled_inside [OF channel_g_inside [OF lo hi]] by blast
  obtain b where b: "to_u8 (fmul (channel_b q) (int_to_f32 255)) = Some b"
      "ftrunc (fmul (channel_b q) (int_to_f32 255)) = Some (uint b)"
    using scaled_inside [OF channel_b_inside [OF lo hi]] by blast
  show ?thesis using r g' b by (auto simp: getColorFromRatio_def)
qed

lemmas f32_eval = lit_def int_to_f32_def mk_f32_def round_units_def rne_def Let_def
  compute_floorlog sval_def fsub_def fmax_def to_u8_def

lemma color_at_0: "getColorFromRatio (lit 0 10) = Some (mkColor 255 0 0)"
  by (simp add: getColorFromRatio_def channel_r_def channel_g_def channel_b_def f32_eval)

lemma color_at_1: "getColorFromRatio (lit 10 10) = Some (mkColor 0 0 255)"
  by (simp add: getColorFromRatio_def channel_r_def channel_g_def channel_b_def f32_eval)

lemma to_u8_top:
  assumes lo: "atleast (255 * 2 ^ 149) x" and d: "to_u8 x = Some w"
  shows "w = 255"
proof (cases x)
  case NaN with lo show ?thesis by (simp add: atleast_def)
next
  case (Infty s) with d show ?thesis by (simp add: to_u8_def)
next
  case (Fin s a)
  have a: "\<not> s" "255 * 2 ^ 149 \<le> a" using lo Fin
    by (auto simp: atleast_def sval_def split: if_splits)
  then have "255 * 2 ^ 149 div 2 ^ 149 \<le> a div 2 ^ 149" by (intro div_le_mono)
  then have "255 \<le> a div 2 ^ 149" by simp
  then show ?thesis using d Fin a(1) by (auto simp: to_u8_def sval_def split: if_splits)
qed

lemma to_u8_bottom:
  assumes hi: "atmost 0 x" and d: "to_u8 x = Some w"
  shows "w = 0"
proof (cases x)
  case NaN with hi show ?thesis by (simp add: atmost_def)
next
  case (Infty s) with d show ?thesis by (simp add: to_u8_def)
next
  case (Fin s a)
  have "s \<or> a = 0" using hi Fin by (auto simp: atmost_def sval_def split: if_splits)
  then show ?thesis using d Fin by (auto simp: to_u8_def sval_def split: if_splits)
qed

lemma zero_times_255: "fmul (Fin False 0) (int_to_f32 255) = Fin False 0"
  by (simp add: f_255 mk_f32_def round_units_0)

lemma to_u8_zero: "to_u8 (Fin False 0) = Some 0"
  by (simp add: to_u8_def sval_def)

lemma color_below:
  assumes q: "atmost (- 1) q" and d: "getColorFromRatio q = Some c"
  shows "c = mkColor 255 0 0"
proof -
  have q0: "atmost 0 q" using q by (rule atmost_weaken) simp
  have rm: "atmost (2 * 0) (fmul q (lit 20 10))" using q0 by (rule mul2_atmost) (simp add: fitsI_consts)
  have rd: "atleast (2 ^ 149) (fsub (lit 10 10) (fmul q (lit 20 10)))"
    using one_bounds(1) rm by (rule fsub_atleast) (use fitsI_consts in simp_all)
  have "atleast (2 ^ 149) (channel_r q)" unfolding channel_r_def lit_0
    using fmax0_atleast [OF rd] by simp
  then have r: "atleast (255 * 2 ^ 149) (fmul (channel_r q) (int_to_f32 255))"
    using mul255_atleast [of "2 ^ 149" "channel_r q"] fitsI_consts by simp
  have gd: "atmost (- (2 ^ 148)) (fsub q (lit 5 10))"
    using q half_bounds(1) by (rule fsub_atmost) (use fitsI_consts in \<open>simp_all add: fitsI_neg\<close>)
  have ga: "atleast (2 ^ 148) (fabs (fsub q (lit 5 10)))"
    using fabs_atleast_neg [OF gd] by simp
  have gm: "atleast (2 * 2 ^ 148) (fmul (fabs (fsub q (lit 5 10))) (lit 20 10))"
    using ga by (rule mul2_atleast) (use fitsI_consts in simp)
  have "atmost 0 (channel_g q)" unfolding channel_g_def
    using one_bounds(2) gm by (rule fsub_atmost) (use fitsI_consts in simp_all)
  then have gg: "atmost 0 (fmul (channel_g q) (int_to_f32 255))"
    using mul255_atmost [of 0 "channel_g q"] fitsI_consts by simp
  have bm: "atmost (2 * - (2 ^ 148)) (fmul (fsub q (lit 5 10)) (lit 20 10))"
    using gd by (rule mul2_atmost) (use fitsI_consts in \<open>simp add: fitsI_neg\<close>)
  have "atmost 0 (fmul (fsub q (lit 5 10)) (lit 20 10))"
    using bm by (rule atmost_weaken) simp
  then have b: "channel_b q = Fin False 0" unfolding channel_b_def lit_0 by (rule fmax0_zero)
  show ?thesis using d to_u8_top [OF r] to_u8_bottom [OF gg] b
    by (auto simp: getColorFromRatio_def zero_times_255 to_u8_zero split: option.splits)
qed

lemma color_above:
  assumes q: "atleast (2 ^ 149 + 1) q" and d: "getColorFromRatio q = Some c"
  shows "c = mkColor 0 0 255"
proof -
  have q1: "atleast (2 ^ 149) q" using q by (rule atleast_weaken) simp
  have rm: "atleast (2 * 2 ^ 149) (fmul q (lit 20 10))"
    using q1 by (rule mul2_atleast) (use fitsI_consts in simp)
  have rd: "atmost (- (2 ^ 149)) (fsub (lit 10 10) (fmul q (lit 20 10)))"
    using one_bounds(2) rm by (rule fsub_atmost) (use fitsI_consts in \<open>simp_all add: fitsI_neg\<close>)
  have "atmost 0 (fsub (lit 10 10) (fmul q (lit 20 10)))"
    using rd by (rule atmost_weaken) simp
  then have r: "channel_r q = Fin False 0" unfolding channel_r_def lit_0 by (rule fmax0_zero)
  have gd: "atleast (2 ^ 148) (fsub q (lit 5 10))"
    using q1 half_bounds(2) by (rule fsub_atleast) (use fitsI_consts in simp_all)
  have ga: "atleast (2 ^ 148) (fabs (fsub q (lit 5 10)))"
    using gd by (rule fabs_atleast_pos)
  have gm: "atleast (2 * 2 ^ 148) (fmul (fabs (fsub q (lit 5 10))) (lit 20 10))"
    using ga by (rule mul2_atleast) (use fitsI_consts in simp)
  have "atmost 0 (channel_g q)" unfolding channel_g_def
    using one_bounds(2) gm by (rule fsub_atmost) (use fitsI_consts in simp_all)
  then have gg: "atmost 0 (fmul (channel_g q) (int_to_f32 255))"
    using mul255_atmost [of 0 "channel_g q"] fitsI_consts by simp
  have bm: "atleast (2 * 2 ^ 148) (fmul (fsub q (lit 5 10)) (lit 20 10))"
    using gd by (rule mul2_atleast) (use fitsI_consts in simp)
  have "atleast (2 ^ 149) (channel_b q)" unfolding channel_b_def lit_0
    using fmax0_atleast [OF bm] by simp
  then have b: "atleast (255 * 2 ^ 149) (fmul (channel_b q) (int_to_f32 255))"
    using mul255_atleast [of "2 ^ 149" "channel_b q"] fitsI_consts by simp
  show ?thesis using d to_u8_top [OF b] to_u8_bottom [OF gg] r
    by (auto simp: getColorFromRatio_def zero_times_255 to_u8_zero split: option.splits)
qed

lemma color_clamped:
  assumes d: "getColorFromRatio q = Some c"
  shows "getColorFromRatio (clamp01 q) = Some c"
proof -
  consider "flt q (lit 0 10)" | "\<not> flt q (lit 0 10)" "flt (lit 10 10) q"
    | "\<not> flt q (lit 0 10)" "\<not> flt (lit 10 10) q" by blast
  then show ?thesis
  proof cases
    case 1
    then have "atmost (- 1) q" by (simp add: lit_0 flt_neg)
    then have "c = mkColor 255 0 0" using d by (rule color_below)
    then show ?thesis using 1 by (simp add: clamp01_def color_at_0)
  next
    case 2
    then have "atleast (2 ^ 149 + 1) q" using flt_const [of "2 ^ 149" q] by (simp add: lit_1)
    then have "c = mkColor 0 0 255" using d by (rule color_above)
    then show ?thesis using 2 by (simp add: clamp01_def color_at_1)
  next
    case 3
    then show ?thesis using d by (simp add: clamp01_def)
  qed
qed

section \<open>The state at start-up\<close>

text \<open>
  The colour ratios \<open>i / 24\<close> of the 25 pendulums lie in \<open>[0, 1]\<close>: their colours are
  defined, and main reaches its loop with 25 pendulums set up.
\<close>

lemma f_24: "int_to_f32 24 = Fin False (24 * 2 ^ 149)"
  by (simp add: f32_eval)

lemma int_to_f32_small:
  assumes "0 \<le> i" "i \<le> 24"
  shows "\<exists>a. int_to_f32 i = Fin False a \<and> a \<le> 24 * 2 ^ 149"
proof -
  define a where "a = round_units (nat \<bar>i\<bar> * 2 ^ 149) 1"
  have "fits24 (24 * 2 ^ 149)" by (rule fits24_shift) simp
  moreover have "nat \<bar>i\<bar> * 2 ^ 149 \<le> 24 * 2 ^ 149 * 1" using assms by simp
  ultimately have le: "a \<le> 24 * 2 ^ 149" unfolding a_def by (intro round_units_le) simp_all
  then have "a < 2 ^ 277" by simp
  then have "int_to_f32 i = Fin False a" using assms unfolding int_to_f32_def a_def [symmetric]
    by (simp add: mk_f32_def)
  with le show ?thesis by blast
qed

lemma colorRatio_inside:
  assumes "0 \<le> i" "i \<le> 24"
  shows "atleast 0 (colorRatio i)" "atmost (2 ^ 149) (colorRatio i)"
proof -
  obtain a where a: "int_to_f32 i = Fin False a" "a \<le> 24 * 2 ^ 149"
    using int_to_f32_small [OF assms] by blast
  have eq: "colorRatio i = mk_f32 False (round_units (a * 2 ^ 149) (24 * 2 ^ 149))"
    unfolding colorRatio_def NUM_PENDULUMS_def using a(1) f_24 by simp
  show "atleast 0 (colorRatio i)" unfolding eq
    by (rule mk_atleast_int [where z = "int (a * 2 ^ 149)"]) (use fitsI_consts in simp_all)
  have "a * 2 ^ 149 \<le> 24 * 2 ^ 149 * 2 ^ 149" using a(2) by (rule mult_le_mono1)
  then have "int (a * 2 ^ 149) \<le> int (2 ^ 149 * (24 * 2 ^ 149))"
    by (simp only: of_nat_le_iff mult_ac)
  then have h: "int (a * 2 ^ 149) \<le> 2 ^ 149 * int (24 * 2 ^ 149)" by simp
  show "atmost (2 ^ 149) (colorRatio i)" unfolding eq
    by (rule mk_atmost_int [where z = "int (a * 2 ^ 149)", OF _ _ _ _ h])
       (use fitsI_consts in simp_all)
qed

lemma init_pendulum_defined:
  assumes "0 \<le> i" "i \<le> 24"
  shows "\<exists>c. init_pendulum M i =
    Some (Pendulum_setup (angularFreq i) (visualLength M i) maxAmplitudeRad pivotPoint c Pendulum0)"
proof -
  obtain cr cg cb where "getColorFromRatio (colorRatio i) = Some (mkColor cr cg cb)"
    using color_inside [OF colorRatio_inside [OF assms]] by blast
  then show ?thesis by (auto simp: init_pendulum_def)
qed

lemma init_pendulums_defined:
  assumes "\<forall>i\<in>set js. 0 \<le> i \<and> i \<le> 24"
  shows "\<exists>ps. init_pendulums M js = Some ps \<and> length ps = length js \<and>
    (\<forall>k<length js. \<exists>c. ps ! k =
       Pendulum_setup (angularFreq (js ! k)) (visualLength M (js ! k)) maxAmplitudeRad pivotPoint c
         Pendulum0)"
  using assms
proof (induction js)
  case Nil
  show ?case by simp
next
  case (Cons i js)
  obtain c where c: "init_pendulum M i =
      Some (Pendulum_setup (angularFreq i) (visualLength M i) maxAmplitudeRad pivotPoint c Pendulum0)"
    using init_pendulum_defined [of i M] Cons.prems by auto
  obtain ps where ps: "init_pendulums M js = Some ps" "length ps = length js"
      "\<forall>k<length js. \<exists>c. ps ! k =
         Pendulum_setup (angularFreq (js ! k)) (visualLength M (js ! k)) maxAmplitudeRad pivotPoint c
           Pendulum0"
    using Cons.IH Cons.prems by auto
  show ?case using c ps by (auto simp: nth_Cons split: nat.splits)
qed

lemma init_defined:
  "\<exists>st. init M = Some st \<and> length (pendulums st) = 25 \<and>
     totalSimTime st = lit 0 10 \<and> timeScale st = lit 10 10 \<and> \<not> isPaused st \<and> isOpen st \<and>
     (\<forall>k<25. \<exists>c. pendulums st ! k =
        Pendulum_setup (angularFreq (int k)) (visualLength M (int k)) maxAmplitudeRad pivotPoint c
          Pendulum0)"
proof -
  have "\<forall>i\<in>set [0 .. 24]. 0 \<le> i \<and> i \<le> 24" by simp
  then obtain ps where ps: "init_pendulums M [0 .. 24] = Some ps" "length ps = length [0 .. 24::int]"
      "\<forall>k<length [0 .. 24::int]. \<exists>c. ps ! k =
         Pendulum_setup (angularFreq ([0 .. 24] ! k)) (visualLength M ([0 .. 24] ! k)) maxAmplitudeRad
           pivotPoint c Pendulum0"
    using init_pendulums_defined [of "[0 .. 24]" M] by blast
  have len: "length [0 .. 24::int] = 25" by simp
  have nth: "[0 .. 24::int] ! k = int k" if "k < 25" for k
    using that nth_upto [of 0 k 24] by simp
  show ?thesis using ps len nth unfolding init_def NUM_PENDULUMS_def by simp
qed

section \<open>The derived parameters\<close>

text \<open>The 25 angular frequencies, evaluated.\<close>

lemma angularFreq_values:
  "angularFreq 0 = Fin False (5490331 * 2 ^ 129)"
  "angularFreq 1 = Fin False (11200275 * 2 ^ 128)"
  "angularFreq 2 = Fin False (11419889 * 2 ^ 128)"
  "angularFreq 3 = Fin False (11639503 * 2 ^ 128)"
  "angularFreq 4 = Fin False (11859115 * 2 ^ 128)"
  "angularFreq 5 = Fin False (1509841 * 2 ^ 131)"
  "angularFreq 6 = Fin False (6149171 * 2 ^ 129)"
  "angularFreq 7 = Fin False (12517955 * 2 ^ 128)"
  "angularFreq 8 = Fin False (12737569 * 2 ^ 128)"
  "angularFreq 9 = Fin False (12957181 * 2 ^ 128)"
  "angularFreq 10 = Fin False (13176795 * 2 ^ 128)"
  "angularFreq 11 = Fin False (1674551 * 2 ^ 131)"
  "angularFreq 12 = Fin False (6808011 * 2 ^ 129)"
  "angularFreq 13 = Fin False (13835635 * 2 ^ 128)"
  "angularFreq 14 = Fin False (878453 * 2 ^ 132)"
  "angularFreq 15 = Fin False (14274861 * 2 ^ 128)"
  "angularFreq 16 = Fin False (7247237 * 2 ^ 129)"
  "angularFreq 17 = Fin False (14714087 * 2 ^ 128)"
  "angularFreq 18 = Fin False (14933701 * 2 ^ 128)"
  "angularFreq 19 = Fin False (15153315 * 2 ^ 128)"
  "angularFreq 20 = Fin False (15372927 * 2 ^ 128)"
  "angularFreq 21 = Fin False (15592541 * 2 ^ 128)"
  "angularFreq 22 = Fin False (7906077 * 2 ^ 129)"
  "angularFreq 23 = Fin False (16031767 * 2 ^ 128)"
  "angularFreq 24 = Fin False (16251381 * 2 ^ 128)"
  by (simp_all add: angularFreq_def period_def TOTAL_PERIOD_S_def BASE_OSCILLATIONS_def pi_f_def
      f32_eval)

lemma below_25:
  "k < (25::nat) \<Longrightarrow> k = 0 \<or> k = 1 \<or> k = 2 \<or> k = 3 \<or> k = 4 \<or> k = 5 \<or> k = 6 \<or> k = 7 \<or> k = 8 \<or> k = 9 \<or> k = 10 \<or> k = 11 \<or> k = 12 \<or> k = 13 \<or> k = 14 \<or> k = 15 \<or> k = 16 \<or> k = 17 \<or> k = 18 \<or> k = 19 \<or> k = 20 \<or> k = 21 \<or> k = 22 \<or> k = 23 \<or> k = 24"
  by arith

lemma angularFreq_increasing:
  assumes "i < j" "j < 25"
  shows "flt (angularFreq (int i)) (angularFreq (int j))"
proof -
  define ws :: "nat list" where "ws =
     [5490331 * 2 ^ 129,
      11200275 * 2 ^ 128,
      11419889 * 2 ^ 128,
      11639503 * 2 ^ 128,
      11859115 * 2 ^ 128,
      1509841 * 2 ^ 131,
      6149171 * 2 ^ 129,
      12517955 * 2 ^ 128,
      12737569 * 2 ^ 128,
      12957181 * 2 ^ 128,
      13176795 * 2 ^ 128,
      1674551 * 2 ^ 131,
      6808011 * 2 ^ 129,
      13835635 * 2 ^ 128,
      878453 * 2 ^ 132,
      14274861 * 2 ^ 128,
      7247237 * 2 ^ 129,
      14714087 * 2 ^ 128,
      14933701 * 2 ^ 128,
      15153315 * 2 ^ 128,
      15372927 * 2 ^ 128,
      15592541 * 2 ^ 128,
      7906077 * 2 ^ 129,
      16031767 * 2 ^ 128,
      16251381 * 2 ^ 128]"
  have tab: "angularFreq (int k) = Fin False (ws ! k)" if "k < 25" for k
    using below_25 [OF that] angularFreq_values by (elim disjE) (simp_all add: ws_def)
  have "sorted_wrt (<) ws" by (simp add: ws_def)
  moreover have "length ws = 25" by (simp add: ws_def)
  ultimately have "ws ! i < ws ! j" using assms by (simp add: sorted_wrt_nth_less)
  then show ?thesis using assms tab [of i] tab [of j] by (simp add: sval_def)
qed

lemma init_pendulum_fields:
  assumes "init M = Some st" "k < 25"
  shows "m_angularFrequency (pendulums st ! k) = angularFreq (int k)"
    "m_visualLength (pendulums st ! k) = visualLength M (int k)"
    "m_amplitudeRad (pendulums st ! k) = maxAmplitudeRad"
    "m_pivotPoint (pendulums st ! k) = pivotPoint"
proof -
  obtain c where "pendulums st ! k =
      Pendulum_setup (angularFreq (int k)) (visualLength M (int k)) maxAmplitudeRad pivotPoint c
        Pendulum0"
    using init_defined [of M] assms by auto
  then show "m_angularFrequency (pendulums st ! k) = angularFreq (int k)"
    "m_visualLength (pendulums st ! k) = visualLength M (int k)"
    "m_amplitudeRad (pendulums st ! k) = maxAmplitudeRad"
    "m_pivotPoint (pendulums st ! k) = pivotPoint"
    by (simp_all add: Pendulum_setup_def)
qed

text \<open>
  C3. In the state the loop is entered with, the angular frequencies of the 25 pendulums
  strictly increase with the index: for \<open>i < j < 25\<close> the one stored in pendulum \<open>i\<close> is
  less (the operator \<^verbatim>\<open><\<close> on floats) than the one stored in pendulum \<open>j\<close>.
\<close>

theorem angular_frequency_increasing:
  assumes "init M = Some st" and "i < j" and "j < 25"
  shows "flt (m_angularFrequency (pendulums st ! i)) (m_angularFrequency (pendulums st ! j))"
proof -
  have "i < 25" using assms(2,3) by simp
  then show ?thesis
    using init_pendulum_fields(1) [OF assms(1)] assms(3) angularFreq_increasing [OF assms(2,3)]
    by simp
qed

theorem angular_frequency_increasing_witness:
  "\<exists>st. init libm_w = Some st \<and> (0::nat) < 24 \<and> (24::nat) < 25 \<and>
     flt (m_angularFrequency (pendulums st ! 0)) (m_angularFrequency (pendulums st ! 24))"
proof -
  obtain st where st: "init libm_w = Some st" using init_defined [of libm_w] by blast
  have "flt (m_angularFrequency (pendulums st ! 0)) (m_angularFrequency (pendulums st ! 24))"
    by (rule angular_frequency_increasing [OF st]) simp_all
  with st show ?thesis by simp
qed

lemma longest_is_first: "longestPhysicsL M = physicsLength M 0"
  by (simp add: longestPhysicsL_def physicsLength_def longestPeriod_def period_def)

lemma maxVisualLength_800: "maxVisualLength = Fin False (25 * 2 ^ 154)"
  by (simp add: maxVisualLength_def SCREEN_HEIGHT_def f32_eval)

lemma first_base: "fdiv (period 0) (fmul (lit 20 10) pi_f) = Fin False (12816849 * 2 ^ 123)"
  by (simp add: period_def TOTAL_PERIOD_S_def BASE_OSCILLATIONS_def pi_f_def f32_eval)

lemma first_visualLength:
  assumes "l_pow M (fdiv (period 0) (fmul (lit 20 10) pi_f)) (lit 20 10) =
           fmul (fdiv (period 0) (fmul (lit 20 10) pi_f)) (fdiv (period 0) (fmul (lit 20 10) pi_f))"
  shows "visualLength M 0 = maxVisualLength"
proof -
  have sq: "fmul (Fin False (12816849 * 2 ^ 123)) (Fin False (12816849 * 2 ^ 123)) =
      Fin False (9791351 * 2 ^ 121)"
    by (simp add: f32_eval)
  have L: "physicsLength M 0 = Fin False (12006645 * 2 ^ 124)"
    unfolding physicsLength_def assms unfolding first_base sq by (simp add: g_def f32_eval)
  have ppm: "pixelsPerMeter M = Fin False (4578763 * 2 ^ 138)"
    unfolding pixelsPerMeter_def longest_is_first L maxVisualLength_800 by (simp add: f32_eval)
  show ?thesis unfolding visualLength_def L ppm maxVisualLength_800 by (simp add: f32_eval)
qed

text \<open>
  C2. For every index \<open>i\<close> below 25 the set-up derives
  \<open>period i = TOTAL_PERIOD_S / (BASE_OSCILLATIONS + i)\<close>, stores the angular frequency
  \<open>2\<pi> / period i\<close>, derives \<open>physicsLength i = g * pow (period i / 2\<pi>, 2)\<close> and stores
  the visual length \<open>physicsLength i * pixelsPerMeter\<close>, where \<open>pixelsPerMeter\<close> is
  \<open>(SCREEN_HEIGHT * 0.8) / physicsLength 0\<close>, computed once from the longest period; every
  operation is the single-precision one. When the library's \<open>pow\<close> returns the correctly
  rounded square at the one argument it gets for \<open>i = 0\<close>, the visual length of pendulum
  0 is \<open>SCREEN_HEIGHT * 0.8\<close> exactly (800 pixels).
\<close>

theorem parameter_derivation:
  assumes "init M = Some st" and "i < 25"
  shows "period (int i) = fdiv TOTAL_PERIOD_S (int_to_f32 (BASE_OSCILLATIONS + int i)) \<and>
    m_angularFrequency (pendulums st ! i) = fdiv (fmul (lit 20 10) pi_f) (period (int i)) \<and>
    physicsLength M (int i) =
      fmul g (l_pow M (fdiv (period (int i)) (fmul (lit 20 10) pi_f)) (lit 20 10)) \<and>
    m_visualLength (pendulums st ! i) = fmul (physicsLength M (int i)) (pixelsPerMeter M) \<and>
    pixelsPerMeter M = fdiv (fmul (int_to_f32 SCREEN_HEIGHT) (lit 8 10)) (physicsLength M 0) \<and>
    (l_pow M (fdiv (period 0) (fmul (lit 20 10) pi_f)) (lit 20 10) =
       fmul (fdiv (period 0) (fmul (lit 20 10) pi_f)) (fdiv (period 0) (fmul (lit 20 10) pi_f)) \<longrightarrow>
     m_visualLength (pendulums st ! 0) = fmul (int_to_f32 SCREEN_HEIGHT) (lit 8 10))"
proof -
  have w: "m_angularFrequency (pendulums st ! i) = fdiv (fmul (lit 20 10) pi_f) (period (int i))"
    using init_pendulum_fields(1) [OF assms] by (simp add: angularFreq_def)
  have v: "m_visualLength (pendulums st ! i) = fmul (physicsLength M (int i)) (pixelsPerMeter M)"
    using init_pendulum_fields(2) [OF assms] by (simp add: visualLength_def)
  have p: "pixelsPerMeter M = fdiv (fmul (int_to_f32 SCREEN_HEIGHT) (lit 8 10)) (physicsLength M 0)"
    by (simp add: pixelsPerMeter_def longest_is_first maxVisualLength_def)
  have v0: "m_visualLength (pendulums st ! 0) = visualLength M 0"
    using init_pendulum_fields(2) [OF assms(1), of 0] by simp
  have top: "m_visualLength (pendulums st ! 0) = fmul (int_to_f32 SCREEN_HEIGHT) (lit 8 10)"
    if "l_pow M (fdiv (period 0) (fmul (lit 20 10) pi_f)) (lit 20 10) =
       fmul (fdiv (period 0) (fmul (lit 20 10) pi_f)) (fdiv (period 0) (fmul (lit 20 10) pi_f))"
    unfolding v0 first_visualLength [OF that] by (simp add: maxVisualLength_def)
  show ?thesis using w v p top by (simp add: period_def physicsLength_def)
qed

theorem parameter_derivation_witness:
  "\<exists>st. init libm_w = Some st \<and> (3::nat) < 25 \<and>
     l_pow libm_w (fdiv (period 0) (fmul (lit 20 10) pi_f)) (lit 20 10) =
       fmul (fdiv (period 0) (fmul (lit 20 10) pi_f)) (fdiv (period 0) (fmul (lit 20 10) pi_f)) \<and>
     m_angularFrequency (pendulums st ! 3) = fdiv (fmul (lit 20 10) pi_f) (period (int 3)) \<and>
     m_visualLength (pendulums st ! 3) = fmul (physicsLength libm_w (int 3)) (pixelsPerMeter libm_w) \<and>
     m_visualLength (pendulums st ! 0) = fmul (int_to_f32 SCREEN_HEIGHT) (lit 8 10)"
proof -
  obtain st where st: "init libm_w = Some st" using init_defined [of libm_w] by blast
  have i: "(3::nat) < 25" by simp
  have pw: "l_pow libm_w (fdiv (period 0) (fmul (lit 20 10) pi_f)) (lit 20 10) =
       fmul (fdiv (period 0) (fmul (lit 20 10) pi_f)) (fdiv (period 0) (fmul (lit 20 10) pi_f))"
    by (simp add: libm_w_def)
  show ?thesis using parameter_derivation [OF st i] st i pw by blast
qed

section \<open>The phases at the start and after the total period\<close>

text \<open>
  Six decimals of \<open>\<pi>\<close>, from the Maclaurin polynomial of the sine about \<open>\<pi> / 6\<close>, where
  the sine is \<open>1 / 2\<close>; then the cosine near a multiple of \<open>2\<pi>\<close>.
\<close>

lemma sin_poly_11:
  "(\<Sum>m<11. sin_coeff m * a ^ m) =
     a - a ^ 3 / 6 + a ^ 5 / 120 - a ^ 7 / 5040 + a ^ 9 / 362880"
proof -
  have "{..<11::nat} = {0, 1, 2, 3, 4, 5, 6, 7, 8, 9, 10}" by auto arith
  then show ?thesis by (simp add: sin_coeff_def fact_numeral)
qed

lemma sin_below_half: "sin (3141592 / 6000000 :: real) < 1 / 2"
proof -
  define a :: real where "a = 3141592 / 6000000"
  have "\<bar>sin a - (\<Sum>m<11. sin_coeff m * a ^ m)\<bar> \<le> inverse (fact 11) * \<bar>a\<bar> ^ 11"
    by (rule Maclaurin_sin_bound)
  then have "sin a \<le> (\<Sum>m<11. sin_coeff m * a ^ m) + inverse (fact 11) * \<bar>a\<bar> ^ 11"
    by linarith
  moreover have "(\<Sum>m<11. sin_coeff m * a ^ m) + inverse (fact 11) * \<bar>a\<bar> ^ 11 < 1 / 2"
    unfolding sin_poly_11 by (simp add: a_def fact_numeral power_divide)
  ultimately show ?thesis unfolding a_def by linarith
qed

lemma sin_above_half: "1 / 2 < sin (3141593 / 6000000 :: real)"
proof -
  define a :: real where "a = 3141593 / 6000000"
  have "\<bar>sin a - (\<Sum>m<11. sin_coeff m * a ^ m)\<bar> \<le> inverse (fact 11) * \<bar>a\<bar> ^ 11"
    by (rule Maclaurin_sin_bound)
  then have "(\<Sum>m<11. sin_coeff m * a ^ m) - inverse (fact 11) * \<bar>a\<bar> ^ 11 \<le> sin a"
    by linarith
  moreover have "1 / 2 < (\<Sum>m<11. sin_coeff m * a ^ m) - inverse (fact 11) * \<bar>a\<bar> ^ 11"
    unfolding sin_poly_11 by (simp add: a_def fact_numeral power_divide)
  ultimately show ?thesis unfolding a_def by linarith
qed

lemma pi_lower: "3141592 / 1000000 < pi"
proof (rule ccontr)
  assume "\<not> 3141592 / 1000000 < pi"
  then have le: "pi / 6 \<le> 3141592 / 6000000" by simp
  have "(3141592 / 6000000 :: real) \<le> pi / 2" using pi_ge_two by simp
  with le have "sin (pi / 6) \<le> sin (3141592 / 6000000 :: real)"
    by (intro sin_monotone_2pi_le) simp_all
  with sin_below_half show False by (simp add: sin_30)
qed

lemma pi_upper: "pi < 3141593 / 1000000"
proof (rule ccontr)
  assume "\<not> pi < 3141593 / 1000000"
  then have le: "3141593 / 6000000 \<le> pi / 6" by simp
  have "sin (3141593 / 6000000 :: real) \<le> sin (pi / 6)"
    using le by (intro sin_monotone_2pi_le) simp_all
  with sin_above_half show False by (simp add: sin_30)
qed

lemma cos_near_one: "1 - y\<^sup>2 / 2 \<le> cos (y::real)"
proof -
  have "cos (2 * (y / 2)) = 1 - 2 * sin (y / 2) ^ 2" by (rule cos_double_sin)
  moreover have "sin (y / 2) ^ 2 \<le> (y / 2) ^ 2"
    using abs_sin_x_le_abs_x [of "y / 2"] by (simp add: abs_le_square_iff [symmetric])
  ultimately show ?thesis by (simp add: power2_eq_square)
qed

lemma cos_shift: "cos (x - 2 * pi * real k) = cos x"
proof -
  have "cos (x - 2 * pi * real k) = cos (x + 2 * pi * of_int (- int k))" by simp
  also have "\<dots> = cos x" by (simp only: cos_add cos_int_2pin sin_int_2pin)
  finally show ?thesis .
qed

lemma cos_near_multiple:
  assumes lo: "- d \<le> x - 2 * real k * (3141593 / 1000000)"
    and hi: "x - 2 * real k * (3141592 / 1000000) \<le> d"
  shows "1 - d\<^sup>2 / 2 \<le> cos x"
proof -
  define y where "y = x - 2 * pi * real k"
  have "2 * real k * (3141592 / 1000000) \<le> 2 * real k * pi"
    using pi_lower by (intro mult_left_mono) simp_all
  moreover have "2 * real k * pi \<le> 2 * real k * (3141593 / 1000000)"
    using pi_upper by (intro mult_left_mono) simp_all
  ultimately have "\<bar>y\<bar> \<le> d" using lo hi unfolding y_def by (simp add: abs_le_iff mult_ac)
  moreover from this have "0 \<le> d" by simp
  ultimately have "y\<^sup>2 \<le> d\<^sup>2" by (simp add: power2_le_iff_abs_le)
  moreover have "1 - y\<^sup>2 / 2 \<le> cos y" by (rule cos_near_one)
  moreover have "cos y = cos x" unfolding y_def by (rule cos_shift)
  ultimately show ?thesis by simp
qed

text \<open>The 25 products \<open>angularFrequency * TOTAL_PERIOD_S\<close>, evaluated.\<close>

lemma at_total_period:
  "fmul (angularFreq 0) TOTAL_PERIOD_S = Fin False (10294371 * 2 ^ 134)"
  "fmul (angularFreq 1) TOTAL_PERIOD_S = Fin False (5250129 * 2 ^ 135)"
  "fmul (angularFreq 2) TOTAL_PERIOD_S = Fin False (5353073 * 2 ^ 135)"
  "fmul (angularFreq 3) TOTAL_PERIOD_S = Fin False (5456017 * 2 ^ 135)"
  "fmul (angularFreq 4) TOTAL_PERIOD_S = Fin False (347435 * 2 ^ 139)"
  "fmul (angularFreq 5) TOTAL_PERIOD_S = Fin False (353869 * 2 ^ 139)"
  "fmul (angularFreq 6) TOTAL_PERIOD_S = Fin False (360303 * 2 ^ 139)"
  "fmul (angularFreq 7) TOTAL_PERIOD_S = Fin False (11735583 * 2 ^ 134)"
  "fmul (angularFreq 8) TOTAL_PERIOD_S = Fin False (11941471 * 2 ^ 134)"
  "fmul (angularFreq 9) TOTAL_PERIOD_S = Fin False (12147357 * 2 ^ 134)"
  "fmul (angularFreq 10) TOTAL_PERIOD_S = Fin False (12353245 * 2 ^ 134)"
  "fmul (angularFreq 11) TOTAL_PERIOD_S = Fin False (3139783 * 2 ^ 136)"
  "fmul (angularFreq 12) TOTAL_PERIOD_S = Fin False (12765021 * 2 ^ 134)"
  "fmul (angularFreq 13) TOTAL_PERIOD_S = Fin False (3242727 * 2 ^ 136)"
  "fmul (angularFreq 14) TOTAL_PERIOD_S = Fin False (13176795 * 2 ^ 134)"
  "fmul (angularFreq 15) TOTAL_PERIOD_S = Fin False (6691341 * 2 ^ 135)"
  "fmul (angularFreq 16) TOTAL_PERIOD_S = Fin False (13588569 * 2 ^ 134)"
  "fmul (angularFreq 17) TOTAL_PERIOD_S = Fin False (13794457 * 2 ^ 134)"
  "fmul (angularFreq 18) TOTAL_PERIOD_S = Fin False (14000345 * 2 ^ 134)"
  "fmul (angularFreq 19) TOTAL_PERIOD_S = Fin False (14206233 * 2 ^ 134)"
  "fmul (angularFreq 20) TOTAL_PERIOD_S = Fin False (14412119 * 2 ^ 134)"
  "fmul (angularFreq 21) TOTAL_PERIOD_S = Fin False (14618007 * 2 ^ 134)"
  "fmul (angularFreq 22) TOTAL_PERIOD_S = Fin False (7411947 * 2 ^ 135)"
  "fmul (angularFreq 23) TOTAL_PERIOD_S = Fin False (7514891 * 2 ^ 135)"
  "fmul (angularFreq 24) TOTAL_PERIOD_S = Fin False (7617835 * 2 ^ 135)"
  by (simp_all add: angularFreq_def period_def TOTAL_PERIOD_S_def BASE_OSCILLATIONS_def pi_f_def
      f32_eval)

lemma cos_T_aux:
  assumes "- (2 / 10000) \<le> real n / 2 ^ 149 - 2 * real k * (3141593 / 1000000)"
    and "real n / 2 ^ 149 - 2 * real k * (3141592 / 1000000) \<le> 2 / 10000"
  shows "1 - 2 / 10 ^ 8 \<le> cos (rval (Fin False n))"
proof -
  have "1 - (2 / 10000)\<^sup>2 / 2 \<le> cos (real n / 2 ^ 149)"
    using assms by (rule cos_near_multiple)
  then show ?thesis by (simp add: rval_def power2_eq_square)
qed

lemma cos_T_table:
  shows
    "1 - 2 / 10 ^ 8 \<le> cos (rval (fmul (angularFreq 0) TOTAL_PERIOD_S))"
    "1 - 2 / 10 ^ 8 \<le> cos (rval (fmul (angularFreq 1) TOTAL_PERIOD_S))"
    "1 - 2 / 10 ^ 8 \<le> cos (rval (fmul (angularFreq 2) TOTAL_PERIOD_S))"
    "1 - 2 / 10 ^ 8 \<le> cos (rval (fmul (angularFreq 3) TOTAL_PERIOD_S))"
    "1 - 2 / 10 ^ 8 \<le> cos (rval (fmul (angularFreq 4) TOTAL_PERIOD_S))"
    "1 - 2 / 10 ^ 8 \<le> cos (rval (fmul (angularFreq 5) TOTAL_PERIOD_S))"
    "1 - 2 / 10 ^ 8 \<le> cos (rval (fmul (angularFreq 6) TOTAL_PERIOD_S))"
    "1 - 2 / 10 ^ 8 \<le> cos (rval (fmul (angularFreq 7) TOTAL_PERIOD_S))"
    "1 - 2 / 10 ^ 8 \<le> cos (rval (fmul (angularFreq 8) TOTAL_PERIOD_S))"
    "1 - 2 / 10 ^ 8 \<le> cos (rval (fmul (angularFreq 9) TOTAL_PERIOD_S))"
    "1 - 2 / 10 ^ 8 \<le> cos (rval (fmul (angularFreq 10) TOTAL_PERIOD_S))"
    "1 - 2 / 10 ^ 8 \<le> cos (rval (fmul (angularFreq 11) TOTAL_PERIOD_S))"
    "1 - 2 / 10 ^ 8 \<le> cos (rval (fmul (angularFreq 12) TOTAL_PERIOD_S))"
    "1 - 2 / 10 ^ 8 \<le> cos (rval (fmul (angularFreq 13) TOTAL_PERIOD_S))"
    "1 - 2 / 10 ^ 8 \<le> cos (rval (fmul (angularFreq 14) TOTAL_PERIOD_S))"
    "1 - 2 / 10 ^ 8 \<le> cos (rval (fmul (angularFreq 15) TOTAL_PERIOD_S))"
    "1 - 2 / 10 ^ 8 \<le> cos (rval (fmul (angularFreq 16) TOTAL_PERIOD_S))"
    "1 - 2 / 10 ^ 8 \<le> cos (rval (fmul (angularFreq 17) TOTAL_PERIOD_S))"
    "1 - 2 / 10 ^ 8 \<le> cos (rval (fmul (angularFreq 18) TOTAL_PERIOD_S))"
    "1 - 2 / 10 ^ 8 \<le> cos (rval (fmul (angularFreq 19) TOTAL_PERIOD_S))"
    "1 - 2 / 10 ^ 8 \<le> cos (rval (fmul (angularFreq 20) TOTAL_PERIOD_S))"
    "1 - 2 / 10 ^ 8 \<le> cos (rval (fmul (angularFreq 21) TOTAL_PERIOD_S))"
    "1 - 2 / 10 ^ 8 \<le> cos (rval (fmul (angularFreq 22) TOTAL_PERIOD_S))"
    "1 - 2 / 10 ^ 8 \<le> cos (rval (fmul (angularFreq 23) TOTAL_PERIOD_S))"
    "1 - 2 / 10 ^ 8 \<le> cos (rval (fmul (angularFreq 24) TOTAL_PERIOD_S))"
proof -
  show "1 - 2 / 10 ^ 8 \<le> cos (rval (fmul (angularFreq 0) TOTAL_PERIOD_S))"
    unfolding at_total_period by (rule cos_T_aux [where k = 50]) simp_all
  show "1 - 2 / 10 ^ 8 \<le> cos (rval (fmul (angularFreq 1) TOTAL_PERIOD_S))"
    unfolding at_total_period by (rule cos_T_aux [where k = 51]) simp_all
  show "1 - 2 / 10 ^ 8 \<le> cos (rval (fmul (angularFreq 2) TOTAL_PERIOD_S))"
    unfolding at_total_period by (rule cos_T_aux [where k = 52]) simp_all
  show "1 - 2 / 10 ^ 8 \<le> cos (rval (fmul (angularFreq 3) TOTAL_PERIOD_S))"
    unfolding at_total_period by (rule cos_T_aux [where k = 53]) simp_all
  show "1 - 2 / 10 ^ 8 \<le> cos (rval (fmul (angularFreq 4) TOTAL_PERIOD_S))"
    unfolding at_total_period by (rule cos_T_aux [where k = 54]) simp_all
  show "1 - 2 / 10 ^ 8 \<le> cos (rval (fmul (angularFreq 5) TOTAL_PERIOD_S))"
    unfolding at_total_period by (rule cos_T_aux [where k = 55]) simp_all
  show "1 - 2 / 10 ^ 8 \<le> cos (rval (fmul (angularFreq 6) TOTAL_PERIOD_S))"
    unfolding at_total_period by (rule cos_T_aux [where k = 56]) simp_all
  show "1 - 2 / 10 ^ 8 \<le> cos (rval (fmul (angularFreq 7) TOTAL_PERIOD_S))"
    unfolding at_total_period by (rule cos_T_aux [where k = 57]) simp_all
  show "1 - 2 / 10 ^ 8 \<le> cos (rval (fmul (angularFreq 8) TOTAL_PERIOD_S))"
    unfolding at_total_period by (rule cos_T_aux [where k = 58]) simp_all
  show "1 - 2 / 10 ^ 8 \<le> cos (rval (fmul (angularFreq 9) TOTAL_PERIOD_S))"
    unfolding at_total_period by (rule cos_T_aux [where k = 59]) simp_all
  show "1 - 2 / 10 ^ 8 \<le> cos (rval (fmul (angularFreq 10) TOTAL_PERIOD_S))"
    unfolding at_total_period by (rule cos_T_aux [where k = 60]) simp_all
  show "1 - 2 / 10 ^ 8 \<le> cos (rval (fmul (angularFreq 11) TOTAL_PERIOD_S))"
    unfolding at_total_period by (rule cos_T_aux [where k = 61]) simp_all
  show "1 - 2 / 10 ^ 8 \<le> cos (rval (fmul (angularFreq 12) TOTAL_PERIOD_S))"
    unfolding at_total_period by (rule cos_T_aux [where k = 62]) simp_all
  show "1 - 2 / 10 ^ 8 \<le> cos (rval (fmul (angularFreq 13) TOTAL_PERIOD_S))"
    unfolding at_total_period by (rule cos_T_aux [where k = 63]) simp_all
  show "1 - 2 / 10 ^ 8 \<le> cos (rval (fmul (angularFreq 14) TOTAL_PERIOD_S))"
    unfolding at_total_period by (rule cos_T_aux [where k = 64]) simp_all
  show "1 - 2 / 10 ^ 8 \<le> cos (rval (fmul (angularFreq 15) TOTAL_PERIOD_S))"
    unfolding at_total_period by (rule cos_T_aux [where k = 65]) simp_all
  show "1 - 2 / 10 ^ 8 \<le> cos (rval (fmul (angularFreq 16) TOTAL_PERIOD_S))"
    unfolding at_total_period by (rule cos_T_aux [where k = 66]) simp_all
  show "1 - 2 / 10 ^ 8 \<le> cos (rval (fmul (angularFreq 17) TOTAL_PERIOD_S))"
    unfolding at_total_period by (rule cos_T_aux [where k = 67]) simp_all
  show "1 - 2 / 10 ^ 8 \<le> cos (rval (fmul (angularFreq 18) TOTAL_PERIOD_S))"
    unfolding at_total_period by (rule cos_T_aux [where k = 68]) simp_all
  show "1 - 2 / 10 ^ 8 \<le> cos (rval (fmul (angularFreq 19) TOTAL_PERIOD_S))"
    unfolding at_total_period by (rule cos_T_aux [where k = 69]) simp_all
  show "1 - 2 / 10 ^ 8 \<le> cos (rval (fmul (angularFreq 20) TOTAL_PERIOD_S))"
    unfolding at_total_period by (rule cos_T_aux [where k = 70]) simp_all
  show "1 - 2 / 10 ^ 8 \<le> cos (rval (fmul (angularFreq 21) TOTAL_PERIOD_S))"
    unfolding at_total_period by (rule cos_T_aux [where k = 71]) simp_all
  show "1 - 2 / 10 ^ 8 \<le> cos (rval (fmul (angularFreq 22) TOTAL_PERIOD_S))"
    unfolding at_total_period by (rule cos_T_aux [where k = 72]) simp_all
  show "1 - 2 / 10 ^ 8 \<le> cos (rval (fmul (angularFreq 23) TOTAL_PERIOD_S))"
    unfolding at_total_period by (rule cos_T_aux [where k = 73]) simp_all
  show "1 - 2 / 10 ^ 8 \<le> cos (rval (fmul (angularFreq 24) TOTAL_PERIOD_S))"
    unfolding at_total_period by (rule cos_T_aux [where k = 74]) simp_all
qed

lemma cos_at_total_period:
  assumes "k < 25"
  shows "1 - 2 / 10 ^ 8 \<le> cos (rval (fmul (angularFreq (int k)) TOTAL_PERIOD_S))"
  using below_25 [OF assms] cos_T_table by (elim disjE) simp_all

lemma floorlog_between:
  assumes "2 ^ w \<le> c" "c < 2 ^ Suc w"
  shows "floorlog 2 c = Suc w"
proof (rule antisym)
  show "floorlog 2 c \<le> Suc w" using assms(2) by (intro floorlog_leI) simp_all
  show "Suc w \<le> floorlog 2 c" using assms(1) by (intro floorlog_geI) simp_all
qed

lemma only_one:
  assumes f: "fits24 c" and lo: "2 ^ 149 - 2 ^ 125 < c" and hi: "c < 2 ^ 149 + 2 ^ 126"
  shows "c = 2 ^ 149"
proof (rule ccontr)
  assume ne: "c \<noteq> 2 ^ 149"
  show False
  proof (cases "c < 2 ^ 149")
    case True
    have "(2::nat) ^ 148 \<le> c" using lo by simp
    then have "floorlog 2 c = Suc 148" using True by (intro floorlog_between) simp_all
    then have "2 ^ 125 dvd c" using f by (simp add: fits24_def)
    then obtain q where q: "c = 2 ^ 125 * q" by (auto simp: dvd_def)
    have "2 ^ 125 * (2 ^ 24 - 1) < (2 ^ 125 * q :: nat)" using lo q by simp
    then have "2 ^ 24 - 1 < q" by (simp only: mult_less_cancel1)
    moreover have "(2 ^ 125 * q :: nat) < 2 ^ 125 * 2 ^ 24" using True q by simp
    then have "q < 2 ^ 24" by (simp only: mult_less_cancel1)
    ultimately show False by simp
  next
    case False
    with ne have gt: "2 ^ 149 < c" by simp
    then have "(2::nat) ^ 149 \<le> c" by simp
    moreover have "c < 2 ^ Suc 149" using hi by simp
    ultimately have "floorlog 2 c = Suc 149" by (rule floorlog_between)
    then have "2 ^ 126 dvd c" using f by (simp add: fits24_def)
    then obtain q where q: "c = 2 ^ 126 * q" by (auto simp: dvd_def)
    have "2 ^ 126 * 2 ^ 23 < (2 ^ 126 * q :: nat)" using gt q by simp
    then have "2 ^ 23 < q" by (simp only: mult_less_cancel1)
    moreover have "(2 ^ 126 * q :: nat) < 2 ^ 126 * (2 ^ 23 + 1)" using hi q by simp
    then have "q < 2 ^ 23 + 1" by (simp only: mult_less_cancel1)
    ultimately show False by simp
  qed
qed

lemma cos_rounded_one:
  assumes a: "cos_rounded_at M x" and c: "1 - 2 / 10 ^ 8 \<le> cos (rval x)"
  shows "l_cos M x = Fin False (2 ^ 149)"
proof -
  obtain s n where n: "l_cos M x = Fin s n" "fits24 n"
      "\<bar>rval (Fin s n) - cos (rval x)\<bar> \<le> 1 / 2 ^ 25"
    using a unfolding cos_rounded_at_def by blast
  have c1: "cos (rval x) \<le> 1" by (rule cos_le_one)
  have lo: "1 - 2 / 10 ^ 8 - 1 / 2 ^ 25 \<le> rval (Fin s n)" using n(3) c by linarith
  have hi: "rval (Fin s n) \<le> 1 + 1 / 2 ^ 25" using n(3) c1 by linarith
  have s: "\<not> s"
  proof
    assume s
    then have "rval (Fin s n) \<le> 0" by (simp add: rval_def)
    with lo show False by simp
  qed
  then have r: "rval (Fin s n) = real n / 2 ^ 149" by (simp add: rval_def)
  have "real (2 ^ 149 - 2 ^ 125) < real n" using lo unfolding r by (simp add: field_simps)
  then have l: "2 ^ 149 - 2 ^ 125 < n" by (simp only: of_nat_less_iff)
  have "real n < real (2 ^ 149 + 2 ^ 126)" using hi unfolding r by (simp add: field_simps)
  then have h: "n < 2 ^ 149 + 2 ^ 126" by (simp only: of_nat_less_iff)
  have "n = 2 ^ 149" using n(2) l h by (rule only_one)
  then show ?thesis using n(1) s by simp
qed

lemma angle_at_zero:
  assumes "init M = Some st" "k < 25"
  shows "currentAngle M (pendulums st ! k) (lit 0 10) = fmul maxAmplitudeRad (l_cos M (Fin False 0))"
proof -
  have "fmul (angularFreq (int k)) (Fin False 0) = Fin False 0"
    using below_25 [OF assms(2)] angularFreq_values
    by (elim disjE) (simp_all add: mk_f32_def round_units_0)
  then show ?thesis
    using init_pendulum_fields(1,3) [OF assms] by (simp add: currentAngle_def lit_0)
qed

lemma angle_at_total_period:
  assumes "init M = Some st" "k < 25"
    and "cos_rounded_at M (fmul (angularFreq (int k)) TOTAL_PERIOD_S)"
  shows "currentAngle M (pendulums st ! k) TOTAL_PERIOD_S = maxAmplitudeRad"
proof -
  have "l_cos M (fmul (angularFreq (int k)) TOTAL_PERIOD_S) = Fin False (2 ^ 149)"
    using assms(3) cos_at_total_period [OF assms(2)] by (rule cos_rounded_one)
  moreover have "fmul maxAmplitudeRad (Fin False (2 ^ 149)) = maxAmplitudeRad"
    by (simp add: maxAmplitudeRad_def MAX_AMPLITUDE_DEG_def pi_f_def f32_eval)
  ultimately show ?thesis
    using init_pendulum_fields(1,3) [OF assms(1,2)] by (simp add: currentAngle_def)
qed

text \<open>
  C5. In the state the loop is entered with, any two of the 25 pendulums have the same
  \<open>currentAngle\<close>, bit for bit, at \<open>t = 0\<close>: every product \<open>angularFrequency * 0\<close> is \<open>0\<close>.
  At \<open>t = TOTAL_PERIOD_S\<close> every product \<open>angularFrequency * t\<close> is within \<open>0.0002\<close> of a
  multiple of \<open>2\<pi>\<close>, so its cosine is within \<open>2 * 10\<^sup>-\<^sup>8\<close> of 1; when the library's \<open>cos\<close>
  rounds correctly at these 25 arguments it returns 1 at each, and all the angles are
  the same value again, the amplitude \<open>maxAmplitudeRad\<close>.
\<close>

theorem phases_realign:
  assumes "init M = Some st" and "i < 25" and "j < 25"
  shows "currentAngle M (pendulums st ! i) (lit 0 10) =
      currentAngle M (pendulums st ! j) (lit 0 10) \<and>
    ((\<forall>k<25. cos_rounded_at M (fmul (angularFreq (int k)) TOTAL_PERIOD_S)) \<longrightarrow>
      currentAngle M (pendulums st ! i) TOTAL_PERIOD_S =
        currentAngle M (pendulums st ! j) TOTAL_PERIOD_S \<and>
      currentAngle M (pendulums st ! i) TOTAL_PERIOD_S = maxAmplitudeRad)"
  using angle_at_zero [OF assms(1,2)] angle_at_zero [OF assms(1,3)]
    angle_at_total_period [OF assms(1,2)] angle_at_total_period [OF assms(1,3)] assms(2,3)
  by simp

lemma libm_w_cos_rounded:
  assumes "k < 25"
  shows "cos_rounded_at libm_w (fmul (angularFreq (int k)) TOTAL_PERIOD_S)"
proof -
  let ?x = "fmul (angularFreq (int k)) TOTAL_PERIOD_S"
  have "1 - 2 / 10 ^ 8 \<le> cos (rval ?x)" using assms by (rule cos_at_total_period)
  moreover have "cos (rval ?x) \<le> 1" by (rule cos_le_one)
  ultimately have "\<bar>rval (Fin False (2 ^ 149)) - cos (rval ?x)\<bar> \<le> 1 / 2 ^ 25"
    by (simp add: rval_def abs_le_iff)
  moreover have "fits24 (2 ^ 149)" using fits24_shift [of 1 149] by simp
  moreover have "l_cos libm_w ?x = Fin False (2 ^ 149)" by (simp add: libm_w_def lit_1)
  ultimately show ?thesis unfolding cos_rounded_at_def by blast
qed

theorem phases_realign_witness:
  "\<exists>st. init libm_w = Some st \<and> (0::nat) < 25 \<and> (24::nat) < 25 \<and>
     (\<forall>k<25. cos_rounded_at libm_w (fmul (angularFreq (int k)) TOTAL_PERIOD_S)) \<and>
     currentAngle libm_w (pendulums st ! 0) (lit 0 10) =
       currentAngle libm_w (pendulums st ! 24) (lit 0 10) \<and>
     currentAngle libm_w (pendulums st ! 0) TOTAL_PERIOD_S =
       currentAngle libm_w (pendulums st ! 24) TOTAL_PERIOD_S"
proof -
  obtain st where st: "init libm_w = Some st" using init_defined [of libm_w] by blast
  have i: "(0::nat) < 25" and j: "(24::nat) < 25" by simp_all
  have h: "\<forall>k<25. cos_rounded_at libm_w (fmul (angularFreq (int k)) TOTAL_PERIOD_S)"
    using libm_w_cos_rounded by blast
  show ?thesis using phases_realign [OF st i j] st i j h by blast
qed

section \<open>What update writes\<close>

text \<open>
  C1. For every pendulum (amplitude \<open>A\<close>, angular frequency \<open>w\<close>, visual length \<open>L\<close>,
  pivot \<open>P\<close>) and every time \<open>t\<close>, \<open>update\<close> sets the position of the bob to
  \<open>(P.x + L * sin (A * cos (w * t)), P.y + L * cos (A * cos (w * t)))\<close>, each operation
  being the single-precision one of the source.
\<close>

theorem update_position:
  "s_position (m_bob (update M t p)) =
     \<lparr>vx = fadd (vx (m_pivotPoint p))
             (fmul (m_visualLength p)
                (l_sin M (fmul (m_amplitudeRad p) (l_cos M (fmul (m_angularFrequency p) t))))),
      vy = fadd (vy (m_pivotPoint p))
             (fmul (m_visualLength p)
                (l_cos M (fmul (m_amplitudeRad p) (l_cos M (fmul (m_angularFrequency p) t)))))\<rparr>"
  by (simp add: update_def currentAngle_def Let_def)

text \<open>One call leaves everything but the two positions as it was.\<close>

lemma update_config [simp]:
  "m_angularFrequency (update M t p) = m_angularFrequency p"
  "m_visualLength (update M t p) = m_visualLength p"
  "m_amplitudeRad (update M t p) = m_amplitudeRad p"
  "m_pivotPoint (update M t p) = m_pivotPoint p"
  by (simp_all add: update_def Let_def)

lemma update_string [simp]:
  "at0 (m_string (update M t p)) = at0 (m_string p)"
  "v_color (at1 (m_string (update M t p))) = v_color (at1 (m_string p))"
  by (simp_all add: update_def Let_def)

lemma update_bob [simp]:
  "s_radius (m_bob (update M t p)) = s_radius (m_bob p)"
  "s_origin (m_bob (update M t p)) = s_origin (m_bob p)"
  "s_fillColor (m_bob (update M t p)) = s_fillColor (m_bob p)"
  "s_outlineThickness (m_bob (update M t p)) = s_outlineThickness (m_bob p)"
  "s_outlineColor (m_bob (update M t p)) = s_outlineColor (m_bob p)"
  by (simp_all add: update_def Let_def)

lemma update_after_update: "update M t (update M t' p) = update M t p"
  by (simp add: update_def currentAngle_def Let_def)

text \<open>
  C10. \<open>update\<close> writes the position of the bob and of \<^verbatim>\<open>m_string[1]\<close> and nothing
  else: after any number of calls, at any times, the four configuration fields, the
  whole vertex \<^verbatim>\<open>m_string[0]\<close> (so its position, the pivot that \<open>Pendulum_setup\<close>
  stored), the colour of \<^verbatim>\<open>m_string[1]\<close> and the other attributes of the bob are
  the ones the pendulum had before.
\<close>

theorem update_frame:
  "m_angularFrequency (fold (update M) ts p) = m_angularFrequency p \<and>
   m_visualLength (fold (update M) ts p) = m_visualLength p \<and>
   m_amplitudeRad (fold (update M) ts p) = m_amplitudeRad p \<and>
   m_pivotPoint (fold (update M) ts p) = m_pivotPoint p \<and>
   at0 (m_string (fold (update M) ts p)) = at0 (m_string p) \<and>
   v_color (at1 (m_string (fold (update M) ts p))) = v_color (at1 (m_string p)) \<and>
   (m_bob (fold (update M) ts p))\<lparr>s_position := s_position (m_bob p)\<rparr> = m_bob p \<and>
   v_position (at0 (m_string (fold (update M) ts (Pendulum_setup w len a pivot col p)))) = pivot"
proof (induction ts arbitrary: p)
  case Nil
  show ?case by (simp add: Pendulum_setup_def)
next
  case (Cons t ts)
  have bob: "(m_bob (update M t p))\<lparr>s_position := s_position (m_bob p)\<rparr> = m_bob p"
    by (simp add: update_def Let_def)
  have "(m_bob (fold (update M) ts (update M t p)))\<lparr>s_position := s_position (m_bob p)\<rparr> =
        ((m_bob (fold (update M) ts (update M t p)))
           \<lparr>s_position := s_position (m_bob (update M t p))\<rparr>)\<lparr>s_position := s_position (m_bob p)\<rparr>"
    by simp
  also have "\<dots> = (m_bob (update M t p))\<lparr>s_position := s_position (m_bob p)\<rparr>"
    using Cons.IH [of "update M t p"] by simp
  finally have b: "(m_bob (fold (update M) ts (update M t p)))\<lparr>s_position := s_position (m_bob p)\<rparr> =
      m_bob p"
    using bob by simp
  have piv: "v_position (at0 (m_string
      (fold (update M) ts (update M t (Pendulum_setup w len a pivot col p))))) = pivot"
    using Cons.IH [of "update M t (Pendulum_setup w len a pivot col p)"]
    by (simp add: Pendulum_setup_def)
  show ?case
    using Cons.IH [of "update M t p"] b piv by simp
qed

text \<open>
  C6. \<open>update\<close> recomputes and never accumulates: the pendulum it leaves depends on
  the configuration and on the time of this call only, whatever calls came before and
  at whatever times (later, earlier or the same). So a repeated call changes nothing
  and the position after \<open>update M t\<close> is the same value, bit for bit, after any
  history. (That one call on one input has one result is what it means for \<open>update\<close>
  to be a function of the library's \<open>sin\<close> and \<open>cos\<close>, the time and the pendulum.)
\<close>

theorem update_idempotent:
  "update M t (fold (update M) ts p) = update M t p \<and>
   update M t (update M t p) = update M t p \<and>
   s_position (m_bob (update M t (fold (update M) ts p))) = s_position (m_bob (update M t p))"
proof -
  have "update M t (fold (update M) ts p) = update M t p"
  proof (induction ts arbitrary: p)
    case Nil
    show ?case by simp
  next
    case (Cons t' ts)
    have "update M t (fold (update M) (t' # ts) p) = update M t (update M t' p)"
      using Cons.IH [of "update M t' p"] by simp
    then show ?case by (simp add: update_after_update)
  qed
  then show ?thesis by (simp add: update_after_update)
qed

section \<open>The simulation clock\<close>

lemma advance_paused_fold: "fold (\<lambda>(d, sc). advance d sc True) xs now = now"
  by (induction xs) (simp_all add: advance_def split: prod.splits)

lemma feq_pos_zero: "feq (if p = Fin True 0 then Fin False 0 else p) p \<or> p = NaN"
  by (cases p) (simp_all add: sval_def)

text \<open>
  C4, as the code has it. The clock of a frame is \<open>advance\<close> on the variables of the
  loop. Paused, it leaves \<open>totalSimTime\<close> as it is, however often it runs and with
  whatever \<open>dt\<close> and \<open>timeScale\<close>; running, it adds the product \<open>dt * timeScale\<close>; and
  after the reset (the key R, which stores \<open>0\<close>) one running step leaves the product
  itself in \<open>totalSimTime\<close>, a product \<open>-0\<close> being stored as \<open>+0\<close>. So the result compares
  equal (\<^verbatim>\<open>==\<close>) to the product whenever the product is not a NaN; when it is one,
  \<open>totalSimTime\<close> is a NaN too and equals nothing.
\<close>

theorem advance_clock:
  "advance dt ts True now = now \<and>
   fold (\<lambda>(d, sc). advance d sc True) xs now = now \<and>
   advance dt ts False now = fadd now (fmul dt ts) \<and>
   totalSimTime (frame M ([], dt) st) =
     advance dt (timeScale st) (isPaused st) (totalSimTime st) \<and>
   totalSimTime (handle_event (KeyPressed Key_R) st) = Fin False 0 \<and>
   advance dt ts False (totalSimTime (handle_event (KeyPressed Key_R) st)) =
     (if fmul dt ts = Fin True 0 then Fin False 0 else fmul dt ts) \<and>
   (feq (advance dt ts False (totalSimTime (handle_event (KeyPressed Key_R) st))) (fmul dt ts) \<or>
    fmul dt ts = NaN)"
proof -
  have reset: "totalSimTime (handle_event (KeyPressed Key_R) st) = Fin False 0"
    by (simp add: lit_0)
  have step: "advance dt ts False (Fin False 0) =
      (if fmul dt ts = Fin True 0 then Fin False 0 else fmul dt ts)"
    unfolding advance_def using fadd_zero_left [OF valid_fmul, of dt ts] by simp
  have eq: "feq (advance dt ts False (Fin False 0)) (fmul dt ts) \<or> fmul dt ts = NaN"
    unfolding step by (rule feq_pos_zero)
  have fr: "totalSimTime (frame M ([], dt) st) =
      advance dt (timeScale st) (isPaused st) (totalSimTime st)"
    by (simp add: frame_def Let_def)
  have "advance dt ts True now = now" "advance dt ts False now = fadd now (fmul dt ts)"
    by (simp_all add: advance_def)
  then show ?thesis
    using advance_paused_fold [of xs now] reset step eq fr by simp
qed

text \<open>
  One more multiplication by \<open>1.2f\<close> takes the largest values of \<open>timeScale\<close> to \<open>+\<infinity>\<close>.
  With \<open>timeScale = +\<infinity>\<close> and \<open>dt = 0\<close> the product is a NaN: after the reset the running
  step stores a NaN, and \<^verbatim>\<open>totalSimTime == dt * timeScale\<close> is false.
\<close>

theorem advance_clock_counterexample:
  "fmul (Fin False (14961489 * 2 ^ 253)) (lit 12 10) = Infty False \<and>
   totalSimTime (handle_event (KeyPressed Key_R)
     \<lparr>pendulums = [], totalSimTime = lit 10 10, timeScale = Infty False, isPaused = False,
      isOpen = True\<rparr>) = lit 0 10 \<and>
   fmul (lit 0 10) (Infty False) = NaN \<and>
   advance (lit 0 10) (Infty False) False (lit 0 10) = NaN \<and>
   \<not> feq (advance (lit 0 10) (Infty False) False (lit 0 10)) (fmul (lit 0 10) (Infty False))"
  by (simp add: advance_def f32_eval)

section \<open>The time scale\<close>

lemma handle_event_scale_cases:
  "timeScale (handle_event e s) = timeScale s \<or>
   timeScale (handle_event e s) = fmul (timeScale s) (lit 12 10) \<or>
   timeScale (handle_event e s) = fdiv (timeScale s) (lit 12 10)"
proof (cases e)
  case (KeyPressed k)
  then show ?thesis by (cases k) simp_all
qed simp_all

text \<open>
  C9. The loop is entered with \<open>timeScale = 1\<close>; an event leaves \<open>timeScale\<close> as it is,
  multiplies it by \<open>1.2f\<close> or divides it by \<open>1.2f\<close>; and after any frames, with any events
  and any clock readings, \<open>timeScale\<close> is strictly positive: dividing stops at the
  smallest subnormals without reaching zero, and multiplying ends at \<open>+\<infinity>\<close>. So one more
  running step of the clock, with a \<open>dt\<close> that is not negative, never leaves
  \<open>totalSimTime\<close> smaller than it was.
\<close>

theorem timeScale_positive:
  "\<exists>st0. init M = Some st0 \<and> timeScale st0 = lit 10 10 \<and>
     flt (lit 0 10) (timeScale (run M frames st0)) \<and>
     (timeScale (handle_event e s) = timeScale s \<or>
      timeScale (handle_event e s) = fmul (timeScale s) (lit 12 10) \<or>
      timeScale (handle_event e s) = fdiv (timeScale s) (lit 12 10)) \<and>
     (\<not> flt dt (lit 0 10) \<longrightarrow>
      \<not> flt (advance dt (timeScale (run M frames st0)) False (totalSimTime (run M frames st0)))
            (totalSimTime (run M frames st0)))"
proof -
  obtain st0 where st0: "init M = Some st0" "totalSimTime st0 = lit 0 10"
      "timeScale st0 = lit 10 10"
    using init_defined [of M] by blast
  have "flt (Fin False 0) (timeScale st0)" using st0(3) by (simp add: lit_1 sval_def)
  then have pos: "flt (Fin False 0) (timeScale (run M frames st0))" by (rule run_scale)
  have "valid (totalSimTime st0)" using st0(2) by (simp add: valid_lit_0)
  then have v: "valid (totalSimTime (run M frames st0))" by (rule run_valid)
  have nb: "\<not> flt (advance dt (timeScale (run M frames st0)) False (totalSimTime (run M frames st0)))
            (totalSimTime (run M frames st0))" if "\<not> flt dt (Fin False 0)"
    unfolding advance_def using fadd_not_back [OF v fmul_nonneg [OF pos that]] by simp
  show ?thesis using st0 pos nb handle_event_scale_cases [of e s] by (auto simp: lit_0)
qed

theorem timeScale_positive_witness:
  "\<exists>st0. init libm_w = Some st0 \<and> timeScale st0 = lit 10 10 \<and>
     flt (lit 0 10) (timeScale (run libm_w [([KeyPressed Key_Down], lit 10 10)] st0)) \<and>
     \<not> flt (lit 10 10) (lit 0 10) \<and>
     \<not> flt (advance (lit 10 10) (timeScale (run libm_w [([KeyPressed Key_Down], lit 10 10)] st0))
              False (totalSimTime (run libm_w [([KeyPressed Key_Down], lit 10 10)] st0)))
            (totalSimTime (run libm_w [([KeyPressed Key_Down], lit 10 10)] st0))"
proof -
  have dt: "\<not> flt (lit 10 10) (lit 0 10)" by (simp add: lit_0 lit_1 sval_def)
  obtain st0 where st0: "init libm_w = Some st0" "timeScale st0 = lit 10 10"
     "flt (lit 0 10) (timeScale (run libm_w [([KeyPressed Key_Down], lit 10 10)] st0))"
     "\<not> flt (lit 10 10) (lit 0 10) \<longrightarrow>
      \<not> flt (advance (lit 10 10) (timeScale (run libm_w [([KeyPressed Key_Down], lit 10 10)] st0))
              False (totalSimTime (run libm_w [([KeyPressed Key_Down], lit 10 10)] st0)))
            (totalSimTime (run libm_w [([KeyPressed Key_Down], lit 10 10)] st0))"
    using timeScale_positive [of libm_w "[([KeyPressed Key_Down], lit 10 10)]" OtherEvent _ "lit 10 10"]
    by blast
  then show ?thesis using dt by blast
qed

section \<open>The colour ramp: truncation, and no clamp\<close>

text \<open>
  C8, as the code has it. For every ratio in \<open>[0, 1]\<close> the colour is defined and each of
  its channels is the integer part (the truncation \<open>ftrunc\<close>, not the nearest integer) of
  the single-precision product of 255 and the float channel \<open>channel_r\<close>, \<open>channel_g\<close>,
  \<open>channel_b\<close> of the source's formulas; that integer is already one of \<open>0..255\<close>, and the
  code clamps nothing.
\<close>

theorem getColorFromRatio_truncates:
  assumes "fle (lit 0 10) ratio" and "fle ratio (lit 10 10)"
  shows "\<exists>cr cg cb. getColorFromRatio ratio = Some (mkColor cr cg cb) \<and>
     ftrunc (fmul (channel_r ratio) (int_to_f32 255)) = Some (uint cr) \<and>
     ftrunc (fmul (channel_g ratio) (int_to_f32 255)) = Some (uint cg) \<and>
     ftrunc (fmul (channel_b ratio) (int_to_f32 255)) = Some (uint cb)"
proof -
  have "atleast 0 ratio" using assms(1) by (simp add: lit_0 fle_zero)
  moreover have "atmost (2 ^ 149) ratio" using assms(2) fle_const [of ratio "2 ^ 149"]
    by (simp add: lit_1)
  ultimately show ?thesis by (rule color_inside)
qed

lemma quarter: "lit 25 100 = Fin False (2 ^ 147)"
  by (simp add: f32_eval)

lemma color_at_quarter: "getColorFromRatio (Fin False (2 ^ 147)) = Some (mkColor 127 127 0)"
  by (simp add: getColorFromRatio_def channel_r_def channel_g_def channel_b_def f32_eval)

theorem getColorFromRatio_truncates_witness:
  "fle (lit 0 10) (lit 25 100) \<and> fle (lit 25 100) (lit 10 10) \<and>
   (\<exists>cr cg cb. getColorFromRatio (lit 25 100) = Some (mkColor cr cg cb) \<and>
     ftrunc (fmul (channel_r (lit 25 100)) (int_to_f32 255)) = Some (uint cr) \<and>
     ftrunc (fmul (channel_g (lit 25 100)) (int_to_f32 255)) = Some (uint cg) \<and>
     ftrunc (fmul (channel_b (lit 25 100)) (int_to_f32 255)) = Some (uint cb))"
proof -
  have lo: "fle (lit 0 10) (lit 25 100)" by (simp add: quarter lit_0 sval_def)
  have hi: "fle (lit 25 100) (lit 10 10)" by (simp add: quarter lit_1 sval_def)
  show ?thesis using lo hi getColorFromRatio_truncates [OF lo hi] by simp
qed

text \<open>
  At the ratio \<open>0.25\<close> the red channel is \<open>0.5\<close> and \<open>0.5 * 255 = 127.5\<close>: the code
  stores 127 where rounding to the nearest integer gives 128.
\<close>

theorem getColorFromRatio_round_counterexample:
  "fle (lit 0 10) (lit 25 100) \<and> fle (lit 25 100) (lit 10 10) \<and>
   channel_r (lit 25 100) = lit 5 10 \<and>
   getColorFromRatio (lit 25 100) = Some (mkColor 127 127 0) \<and>
   spec_round_u8 (fmul (channel_r (lit 25 100)) (int_to_f32 255)) = Some 128"
proof -
  have "channel_r (Fin False (2 ^ 147)) = Fin False (2 ^ 148)"
    by (simp add: channel_r_def f32_eval)
  moreover have "spec_round_u8 (fmul (Fin False (2 ^ 148)) (int_to_f32 255)) = Some 128"
    by (simp add: f32_eval)
  ultimately show ?thesis using color_at_quarter
    by (simp add: quarter lit_0 lit_1 lit_half sval_def)
qed

text \<open>
  C7, as the code has it. \<open>getColorFromRatio\<close> does not clamp its argument. Wherever it
  is defined its result is the colour of the nearest point of \<open>[0, 1]\<close>: inside the
  interval trivially, and outside it only as long as every channel times 255 still
  truncates into \<open>0..255\<close>, which holds within about \<open>1/510\<close> of the interval; further
  out the conversion to \<^verbatim>\<open>std::uint8_t\<close> is undefined.
\<close>

theorem getColorFromRatio_outside:
  assumes "getColorFromRatio ratio = Some c"
  shows "getColorFromRatio (clamp01 ratio) = Some c"
  using assms by (rule color_clamped)

lemma color_just_below:
  "getColorFromRatio (Fin True (2 ^ 139)) = Some (mkColor 255 0 0)"
  by (simp add: getColorFromRatio_def channel_r_def channel_g_def channel_b_def f32_eval)

theorem getColorFromRatio_outside_witness:
  "flt (Fin True (2 ^ 139)) (lit 0 10) \<and>
   getColorFromRatio (Fin True (2 ^ 139)) = Some (mkColor 255 0 0) \<and>
   getColorFromRatio (clamp01 (Fin True (2 ^ 139))) = Some (mkColor 255 0 0)"
  using getColorFromRatio_outside [OF color_just_below] color_just_below
  by (simp add: lit_0 sval_def)

text \<open>
  At the ratio \<open>2\<close> the green channel is \<open>-2\<close> and the blue one \<open>3\<close>; neither \<open>-510\<close> nor
  \<open>765\<close> is a value of \<^verbatim>\<open>std::uint8_t\<close>, so the colour is undefined, while the colour of
  the nearest point \<open>1\<close> is \<open>(0, 0, 255)\<close>.
\<close>

theorem getColorFromRatio_clamp_counterexample:
  "flt (lit 10 10) (lit 20 10) \<and>
   channel_g (lit 20 10) = Fin True (2 ^ 150) \<and>
   channel_b (lit 20 10) = Fin False (3 * 2 ^ 149) \<and>
   getColorFromRatio (lit 20 10) = None \<and>
   getColorFromRatio (clamp01 (lit 20 10)) = Some (mkColor 0 0 255)"
proof -
  have g2: "channel_g (Fin False (2 ^ 150)) = Fin True (2 ^ 150)"
    by (simp add: channel_g_def f32_eval)
  have b2: "channel_b (Fin False (2 ^ 150)) = Fin False (3 * 2 ^ 149)"
    by (simp add: channel_b_def f32_eval)
  have c2: "getColorFromRatio (Fin False (2 ^ 150)) = None"
    by (simp add: getColorFromRatio_def channel_r_def channel_g_def channel_b_def f32_eval)
  have cl: "clamp01 (Fin False (2 ^ 150)) = lit 10 10"
    by (simp add: clamp01_def lit_0 lit_1 sval_def)
  show ?thesis using g2 b2 c2 cl color_at_1
    by (simp add: lit_2 lit_1 sval_def)
qed

end
